theory Spec2Isabelle
  imports Complex_Main
begin

section \<open>Values shared by both modules\<close>

text \<open>
  A thrown JavaScript value. Everything the two modules throw or receive from a
  library is an \<open>Error\<close> object; its message is all a caller can read.
\<close>

datatype js_error = Error string

text \<open>
  The settled outcome of a call: \<open>Inl e\<close> when it throws (or its promise
  rejects with) \<open>e\<close>, \<open>Inr v\<close> when it returns (or fulfils with) \<open>v\<close>.
  \<open>andThen\<close> sequences two steps the way straight-line code does: a throw in
  the first step skips the rest.
\<close>

definition andThen :: "js_error + 'a \<Rightarrow> ('a \<Rightarrow> js_error + 'b) \<Rightarrow> js_error + 'b" where
  "andThen r k = (case r of Inl e \<Rightarrow> Inl e | Inr v \<Rightarrow> k v)"

subsection \<open>Raster images and the canvas\<close>

datatype canvas_op =
    FillRect string real real real real
  | FillText string string string string real real

text \<open>
  \<open>FillRect fillStyle x y w h\<close> and \<open>FillText fillStyle font textAlign text x y\<close>
  record one drawing call with the context state it was made under. A raster image
  is described by its pixel size and the calls that painted it.
\<close>

record Canvas =
  cwidth :: nat
  cheight :: nat
  painted :: "canvas_op list"

datatype image_encoding = PNG | JPEG | WEBP

subsection \<open>The PDF document model of pdf-lib\<close>

record PDFImage =
  image_kind :: image_encoding
  picture :: Canvas

datatype draw_op =
    DrawImage PDFImage real real real real
  | DrawText string real real real

text \<open>
  \<open>DrawImage image x y width height\<close> is one \<open>page.drawImage\<close> call. A page
  carries the content it was parsed with (opaque), its size in points, its
  \<open>Rotate\<close> entry in degrees and what has been drawn on it since.
\<close>

record PDFPage =
  page_content :: string
  pwidth :: real
  pheight :: real
  rotation :: int
  drawn :: "draw_op list"

record PDFDocument =
  pages :: "PDFPage list"

subsection \<open>Workbooks of the spreadsheet library\<close>

text \<open>A worksheet is kept as its rows of cells; a workbook lists its sheets by name.\<close>

type_synonym worksheet = "string list list"

record workbook =
  SheetNames :: "string list"
  Sheets :: "(string \<times> worksheet) list"

subsection \<open>Bytes, blobs and files\<close>

text \<open>
  Byte sequences are kept at the level the libraries read them: a serialised PDF
  is identified with the document it parses to, an encoded image with its
  encoding, encoder quality (where the format has one) and raster, a written
  workbook with the workbook, text with its characters; \<open>RawBytes\<close> is
  everything else.
\<close>

datatype bytes =
    PdfBytes PDFDocument
  | ImageBytes image_encoding "real option" Canvas
  | XlsxBytes workbook
  | TextBytes string
  | RawBytes "nat list"

text \<open>
  A \<open>Blob\<close> has a MIME type and contents; \<open>contents\<close> is the outcome of
  reading it (\<open>arrayBuffer()\<close>), which for a user-selected file may fail.
  \<open>File\<close> extends \<open>Blob\<close> with a name, as in the DOM.
\<close>

record Blob =
  mime_type :: string
  contents :: "js_error + bytes"

record File = Blob +
  name :: string

definition arrayBuffer :: "'a Blob_scheme \<Rightarrow> js_error + bytes" where
  "arrayBuffer b = contents b"

definition new_Blob :: "bytes \<Rightarrow> string \<Rightarrow> Blob" where
  "new_Blob data t = \<lparr>mime_type = t, contents = Inr data\<rparr>"

definition new_File :: "Blob \<Rightarrow> string \<Rightarrow> File" where
  "new_File b n = \<lparr>mime_type = mime_type b, contents = contents b, name = n\<rparr>"

subsection \<open>pdf-lib operations\<close>

text \<open>
  The operations of the PDF library that \<open>PDFProcessor\<close> calls, at page level.
  \<open>PDFDocument.load\<close> throws on bytes that are not a PDF. The messages of the
  library's errors are shortened; no property below depends on their wording.
\<close>

definition PDFDocument_create :: PDFDocument where
  "PDFDocument_create = \<lparr>pages = []\<rparr>"

fun PDFDocument_load :: "bytes \<Rightarrow> js_error + PDFDocument" where
  "PDFDocument_load (PdfBytes d) = Inr d"
| "PDFDocument_load _ = Inl (Error ''Failed to parse PDF document'')"

definition getPages :: "PDFDocument \<Rightarrow> PDFPage list" where
  "getPages d = pages d"

definition getPageCount :: "PDFDocument \<Rightarrow> nat" where
  "getPageCount d = length (pages d)"

definition getPageIndices :: "PDFDocument \<Rightarrow> nat list" where
  "getPageIndices d = [0..<length (pages d)]"

text \<open>\<open>addPage()\<close> with no argument appends a blank A4 page (595.28 by 841.89 points).\<close>

definition blank_page :: PDFPage where
  "blank_page = \<lparr>page_content = [], pwidth = 59528 / 100, pheight = 84189 / 100,
     rotation = 0, drawn = []\<rparr>"

definition addPage :: "PDFDocument \<Rightarrow> PDFPage \<Rightarrow> PDFDocument" where
  "addPage d p = d\<lparr>pages := pages d @ [p]\<rparr>"

text \<open>\<open>copyPages(src, indices)\<close> copies the listed pages of \<open>src\<close>, in the order listed.\<close>

fun copyPages :: "PDFDocument \<Rightarrow> nat list \<Rightarrow> js_error + PDFPage list" where
  "copyPages src [] = Inr []"
| "copyPages src (i # rest) =
     (if i < length (pages src)
      then andThen (copyPages src rest) (\<lambda>ps. Inr (pages src ! i # ps))
      else Inl (Error ''copyPages: page index out of range''))"

text \<open>
  \<open>removePage(index)\<close> asserts that the document has pages and that
  \<open>0 \<le> index \<le> pageCount - 1\<close>, and throws otherwise.
\<close>

definition removePage :: "PDFDocument \<Rightarrow> int \<Rightarrow> js_error + PDFDocument" where
  "removePage d i =
     (if pages d = [] then Inl (Error ''RemovePageFromEmptyDocumentError'')
      else if i < 0 \<or> int (length (pages d)) - 1 < i
        then Inl (Error ''index out of range'')
      else Inr (d\<lparr>pages := take (nat i) (pages d) @ drop (Suc (nat i)) (pages d)\<rparr>))"

text \<open>\<open>setRotation\<close> asserts that the angle is a multiple of 90 degrees and stores it.\<close>

definition setRotation :: "PDFPage \<Rightarrow> int \<Rightarrow> js_error + PDFPage" where
  "setRotation p degrees =
     (if degrees mod 90 = 0 then Inr (p\<lparr>rotation := degrees\<rparr>)
      else Inl (Error ''degreesAngle must be a multiple of 90''))"

text \<open>
  \<open>save(options)\<close>: the option \<open>addDefaultPage\<close> (default \<open>true\<close>; the source
  turns it off in \<open>compressPdf\<close> only) makes \<open>save\<close> add a blank page to a
  document that has none. The bytes written parse back to the document saved.
\<close>

definition save_with :: "bool \<Rightarrow> PDFDocument \<Rightarrow> bytes" where
  "save_with addDefaultPage d =
     PdfBytes (if addDefaultPage \<and> getPageCount d = 0 then addPage d blank_page else d)"

definition save :: "PDFDocument \<Rightarrow> bytes" where
  "save d = save_with True d"

section \<open>PDFProcessor\<close>

subsection \<open>protectPdf\<close>

definition protectPdf :: "File \<Rightarrow> string \<Rightarrow> js_error + Blob" where
  "protectPdf file password =
     andThen (arrayBuffer file) (\<lambda>arrayBuffer.
     andThen (PDFDocument_load arrayBuffer) (\<lambda>pdfDoc.
       Inr (new_Blob (save pdfDoc) ''application/pdf'')))"

subsection \<open>deletePages\<close>

text \<open>
  Page indices are integers. \<open>pagesToDelete.sort((a, b) => b - a)\<close> puts them
  in descending numeric order.
\<close>

definition sort_descending :: "int list \<Rightarrow> int list" where
  "sort_descending xs = rev (sort xs)"

fun deletePages_forEach :: "nat \<Rightarrow> PDFDocument \<Rightarrow> int list \<Rightarrow> js_error + PDFDocument" where
  "deletePages_forEach totalPages pdfDoc [] = Inr pdfDoc"
| "deletePages_forEach totalPages pdfDoc (pageIndex # rest) =
     (if pageIndex \<ge> 0 \<and> pageIndex < int totalPages
      then andThen (removePage pdfDoc pageIndex) (\<lambda>pdfDoc'.
             deletePages_forEach totalPages pdfDoc' rest)
      else deletePages_forEach totalPages pdfDoc rest)"

definition deletePages :: "File \<Rightarrow> int list \<Rightarrow> js_error + Blob" where
  "deletePages file pagesToDelete =
     andThen (arrayBuffer file) (\<lambda>arrayBuffer.
     andThen (PDFDocument_load arrayBuffer) (\<lambda>pdfDoc.
       let totalPages = getPageCount pdfDoc;
           sortedPages = sort_descending pagesToDelete
       in andThen (deletePages_forEach totalPages pdfDoc sortedPages) (\<lambda>pdfDoc'.
            Inr (new_Blob (save pdfDoc') ''application/pdf''))))"

subsection \<open>compressPdf\<close>

definition compressPdf :: "File \<Rightarrow> js_error + Blob" where
  "compressPdf file =
     andThen (arrayBuffer file) (\<lambda>arrayBuffer.
     andThen (PDFDocument_load arrayBuffer) (\<lambda>pdfDoc.
       Inr (new_Blob (save_with False pdfDoc) ''application/pdf'')))"

subsection \<open>mergePdfs\<close>

text \<open>\<open>copiedPages.forEach((page) => mergedPdf.addPage(page))\<close>\<close>

definition addPages :: "PDFDocument \<Rightarrow> PDFPage list \<Rightarrow> PDFDocument" where
  "addPages d ps = foldl addPage d ps"

fun mergePdfs_loop :: "PDFDocument \<Rightarrow> File list \<Rightarrow> js_error + PDFDocument" where
  "mergePdfs_loop mergedPdf [] = Inr mergedPdf"
| "mergePdfs_loop mergedPdf (file # files) =
     andThen (arrayBuffer file) (\<lambda>arrayBuffer.
     andThen (PDFDocument_load arrayBuffer) (\<lambda>pdf.
     andThen (copyPages pdf (getPageIndices pdf)) (\<lambda>copiedPages.
       mergePdfs_loop (addPages mergedPdf copiedPages) files)))"

definition mergePdfs :: "File list \<Rightarrow> js_error + Blob" where
  "mergePdfs files =
     andThen (mergePdfs_loop PDFDocument_create files) (\<lambda>mergedPdf.
       Inr (new_Blob (save mergedPdf) ''application/pdf''))"

subsection \<open>splitPdf\<close>

text \<open>
  The loop body for page \<open>i\<close>. \<open>const [copiedPage] = ...\<close> takes the first
  element of the copied list; \<open>addPage(undefined)\<close> would add a blank page.
\<close>

definition splitPdf_page :: "PDFDocument \<Rightarrow> nat \<Rightarrow> js_error + Blob" where
  "splitPdf_page pdfDoc i =
     (let newPdf = PDFDocument_create in
      andThen (copyPages pdfDoc [i]) (\<lambda>copied.
        let newPdf' = (case copied of
                         copiedPage # _ \<Rightarrow> addPage newPdf copiedPage
                       | [] \<Rightarrow> addPage newPdf blank_page)
        in Inr (new_Blob (save newPdf') ''application/pdf'')))"

fun splitPdf_loop :: "PDFDocument \<Rightarrow> Blob list \<Rightarrow> nat list \<Rightarrow> js_error + Blob list" where
  "splitPdf_loop pdfDoc splitPdfs [] = Inr splitPdfs"
| "splitPdf_loop pdfDoc splitPdfs (i # rest) =
     andThen (splitPdf_page pdfDoc i) (\<lambda>blob.
       splitPdf_loop pdfDoc (splitPdfs @ [blob]) rest)"

definition splitPdf :: "File \<Rightarrow> js_error + Blob list" where
  "splitPdf file =
     andThen (arrayBuffer file) (\<lambda>arrayBuffer.
     andThen (PDFDocument_load arrayBuffer) (\<lambda>pdfDoc.
       let pageCount = getPageCount pdfDoc
       in splitPdf_loop pdfDoc [] [0..<pageCount]))"

subsection \<open>rotatePdf\<close>

text \<open>\<open>pages.forEach(page => page.setRotation(...))\<close>; the first throw ends the loop.\<close>

fun rotatePdf_forEach :: "int \<Rightarrow> PDFPage list \<Rightarrow> js_error + PDFPage list" where
  "rotatePdf_forEach degrees [] = Inr []"
| "rotatePdf_forEach degrees (page # rest) =
     andThen (setRotation page degrees) (\<lambda>page'.
     andThen (rotatePdf_forEach degrees rest) (\<lambda>rest'.
       Inr (page' # rest')))"

definition rotatePdf :: "File \<Rightarrow> int \<Rightarrow> js_error + Blob" where
  "rotatePdf file degrees =
     andThen (arrayBuffer file) (\<lambda>arrayBuffer.
     andThen (PDFDocument_load arrayBuffer) (\<lambda>pdfDoc.
     andThen (rotatePdf_forEach degrees (getPages pdfDoc)) (\<lambda>pages'.
       Inr (new_Blob (save (pdfDoc\<lparr>pages := pages'\<rparr>)) ''application/pdf''))))"

subsection \<open>pdfToImages\<close>

text \<open>Decimal rendering of a number in a template literal.\<close>

definition digit_char :: "nat \<Rightarrow> char" where
  "digit_char n = ''0123456789'' ! n"

function show_nat :: "nat \<Rightarrow> string" where
  "show_nat n = (if n < 10 then [digit_char n] else show_nat (n div 10) @ [digit_char (n mod 10)])"
  by pat_completeness auto
termination
  by (relation "measure id") auto

datatype image_format = Jpg | Png

fun format_string :: "image_format \<Rightarrow> string" where
  "format_string Jpg = ''jpg''"
| "format_string Png = ''png''"

text \<open>
  \<open>canvas.toBlob(callback, type, quality)\<close> as the HTML Standard defines the
  serialisation of a canvas bitmap: the encodings a browser offers are
  \<open>image/png\<close>, \<open>image/jpeg\<close> and \<open>image/webp\<close>; any other type string
  gives a PNG file. The quality argument applies to the lossy encodings only.
  The resulting blob is typed with the encoding actually used.
\<close>

fun encoding_for_type :: "string \<Rightarrow> image_encoding" where
  "encoding_for_type t =
     (if t = ''image/jpeg'' then JPEG
      else if t = ''image/webp'' then WEBP
      else PNG)"

fun encoding_mime :: "image_encoding \<Rightarrow> string" where
  "encoding_mime PNG = ''image/png''"
| "encoding_mime JPEG = ''image/jpeg''"
| "encoding_mime WEBP = ''image/webp''"

definition toBlob :: "Canvas \<Rightarrow> string \<Rightarrow> real \<Rightarrow> Blob" where
  "toBlob canvas t quality =
     (let enc = encoding_for_type t
      in new_Blob (ImageBytes enc (if enc = PNG then None else Some quality) canvas)
           (encoding_mime enc))"

text \<open>The canvas painted in iteration \<open>i\<close> of the loop.\<close>

definition page_canvas :: "nat \<Rightarrow> Canvas" where
  "page_canvas i =
     (let width = 595; height = 842
      in \<lparr>cwidth = width, cheight = height,
          painted =
            [FillRect ''white'' 0 0 (real width) (real height),
             FillText ''black'' ''20px Arial'' ''center'' (''Page '' @ show_nat (i + 1))
               (real width / 2) (real height / 2)]\<rparr>)"

definition pdfToImages :: "File \<Rightarrow> image_format \<Rightarrow> js_error + Blob list" where
  "pdfToImages file format =
     andThen (arrayBuffer file) (\<lambda>arrayBuffer.
     andThen (PDFDocument_load arrayBuffer) (\<lambda>pdfDoc.
       let pages = getPages pdfDoc
       in Inr (map (\<lambda>i. toBlob (page_canvas i) (''image/'' @ format_string format) (9 / 10))
                [0..<length pages])))"

subsection \<open>JavaScript numbers\<close>

text \<open>
  A JavaScript number is an IEEE 754 double: a literal and the result of every
  arithmetic operation is the double nearest to the exact value, a tie going to
  the even significand. \<open>to_double\<close> is that rounding: the value is scaled
  by a power of two to a significand between \<open>2^52\<close> and \<open>2^53\<close>, which is
  rounded to an integer. The exponent is not bounded: the sizes and ratios
  \<open>imagesToPdf\<close> computes with are far from overflow and underflow.
\<close>

definition round_to_even :: "real \<Rightarrow> int" where
  "round_to_even y =
     (let n = \<lfloor>y\<rfloor>; d = y - of_int n
      in if d < 1 / 2 then n
         else if 1 / 2 < d then n + 1
         else if even n then n else n + 1)"

definition to_double :: "real \<Rightarrow> real" where
  "to_double x =
     (if x = 0 then 0
      else let e = \<lfloor>log 2 \<bar>x\<bar>\<rfloor> - 52
           in of_int (round_to_even (x / 2 powr of_int e)) * 2 powr of_int e)"

definition js_divide :: "real \<Rightarrow> real \<Rightarrow> real" where
  "js_divide a b = to_double (a / b)"

definition js_times :: "real \<Rightarrow> real \<Rightarrow> real" where
  "js_times a b = to_double (a * b)"

definition js_minus :: "real \<Rightarrow> real \<Rightarrow> real" where
  "js_minus a b = to_double (a - b)"

subsection \<open>imagesToPdf\<close>

text \<open>\<open>String.prototype.includes\<close>: substring test, case-sensitive.\<close>

fun starts_with :: "string \<Rightarrow> string \<Rightarrow> bool" where
  "starts_with s [] = True"
| "starts_with [] (p # ps) = False"
| "starts_with (c # cs) (p # ps) = (c = p \<and> starts_with cs ps)"

fun string_includes :: "string \<Rightarrow> string \<Rightarrow> bool" where
  "string_includes [] sub = (sub = [])"
| "string_includes (c # cs) sub = (starts_with (c # cs) sub \<or> string_includes cs sub)"

text \<open>\<open>embedPng\<close> and \<open>embedJpg\<close> decode the bytes and throw on any other data.\<close>

fun embedPng :: "bytes \<Rightarrow> js_error + PDFImage" where
  "embedPng (ImageBytes PNG q c) = Inr \<lparr>image_kind = PNG, picture = c\<rparr>"
| "embedPng _ = Inl (Error ''The input is not a PNG file'')"

fun embedJpg :: "bytes \<Rightarrow> js_error + PDFImage" where
  "embedJpg (ImageBytes JPEG q c) = Inr \<lparr>image_kind = JPEG, picture = c\<rparr>"
| "embedJpg _ = Inl (Error ''The input is not a JPEG file'')"

text \<open>The pixel width and height of an embedded image, as numbers.\<close>

definition image_width :: "PDFImage \<Rightarrow> real" where
  "image_width img = to_double (real (cwidth (picture img)))"

definition image_height :: "PDFImage \<Rightarrow> real" where
  "image_height img = to_double (real (cheight (picture img)))"

text \<open>\<open>page.getSize()\<close>: the width and height of the page, as numbers.\<close>

definition getSize :: "PDFPage \<Rightarrow> real \<times> real" where
  "getSize page = (to_double (pwidth page), to_double (pheight page))"

definition drawImage :: "PDFPage \<Rightarrow> PDFImage \<Rightarrow> real \<Rightarrow> real \<Rightarrow> real \<Rightarrow> real \<Rightarrow> PDFPage" where
  "drawImage page img x y w h = page\<lparr>drawn := drawn page @ [DrawImage img x y w h]\<rparr>"

text \<open>
  The page built for one image, every operation in double arithmetic. A decoded
  image has positive width and height, so no division by zero arises.
\<close>

definition image_page :: "PDFImage \<Rightarrow> PDFPage" where
  "image_page img =
     (let page = blank_page;
          (width, height) = getSize page;
          imageAspectRatio = js_divide (image_width img) (image_height img);
          pageAspectRatio = js_divide width height;
          (imageWidth, imageHeight) =
            (if imageAspectRatio > pageAspectRatio
             then (width, js_divide width imageAspectRatio)
             else (js_times height imageAspectRatio, height))
      in drawImage page img
           (js_divide (js_minus width imageWidth) 2)
           (js_divide (js_minus height imageHeight) 2)
           imageWidth imageHeight)"

fun imagesToPdf_loop :: "PDFDocument \<Rightarrow> File list \<Rightarrow> js_error + PDFDocument" where
  "imagesToPdf_loop pdfDoc [] = Inr pdfDoc"
| "imagesToPdf_loop pdfDoc (file # files) =
     andThen (arrayBuffer file) (\<lambda>arrayBuffer.
     andThen (if string_includes (mime_type file) ''png''
              then embedPng arrayBuffer
              else embedJpg arrayBuffer) (\<lambda>img.
       imagesToPdf_loop (addPage pdfDoc (image_page img)) files))"

definition imagesToPdf :: "File list \<Rightarrow> js_error + Blob" where
  "imagesToPdf files =
     andThen (imagesToPdf_loop PDFDocument_create files) (\<lambda>pdfDoc.
       Inr (new_Blob (save pdfDoc) ''application/pdf''))"

section \<open>DocumentProcessor\<close>

subsection \<open>Libraries\<close>

text \<open>
  The office-format libraries and jsPDF are taken as parameters: what they return
  or throw on given data is theirs to decide. \<open>jsPDF_text_output content\<close> stands
  for the calls of \<open>createTextPdf\<close>: \<open>splitTextToSize(content, 180)\<close>,
  \<open>text(lines, 10, 10)\<close>, \<open>output('blob')\<close>.
\<close>

record libraries =
  mammoth_extractRawText :: "bytes \<Rightarrow> js_error + string"
  XLSX_read :: "bytes \<Rightarrow> js_error + workbook"
  XLSX_sheet_to_csv :: "worksheet option \<Rightarrow> js_error + string"
  XLSX_write :: "workbook \<Rightarrow> js_error + bytes"
  jsPDF_text_output :: "string \<Rightarrow> js_error + bytes"

definition aoa_to_sheet :: "string list list \<Rightarrow> worksheet" where
  "aoa_to_sheet rows = rows"

definition book_new :: workbook where
  "book_new = \<lparr>SheetNames = [], Sheets = []\<rparr>"

definition book_append_sheet :: "workbook \<Rightarrow> worksheet \<Rightarrow> string \<Rightarrow> js_error + workbook" where
  "book_append_sheet wb ws n =
     (if n \<in> set (SheetNames wb) then Inl (Error ''Worksheet with this name already exists'')
      else Inr \<lparr>SheetNames = SheetNames wb @ [n], Sheets = Sheets wb @ [(n, ws)]\<rparr>)"

subsection \<open>createTextPdf (PDFProcessor)\<close>

text \<open>An \<open>async\<close> method: a throw inside it rejects the promise it returns.\<close>

definition createTextPdf :: "libraries \<Rightarrow> string \<Rightarrow> string \<Rightarrow> js_error + Blob" where
  "createTextPdf L content filename =
     andThen (jsPDF_text_output L content) (\<lambda>data. Inr (new_Blob data ''application/pdf''))"

subsection \<open>Logging, catching, file names\<close>

text \<open>
  The console collects what \<open>console.error\<close> receives. A method's result is the
  console output together with the outcome of its promise. \<open>caught\<close> is the body
  of every \<open>catch\<close> block: log the error, throw a new one.
\<close>

type_synonym console = "(string \<times> js_error) list"

definition caught :: "string \<Rightarrow> string \<Rightarrow> js_error \<Rightarrow> console \<times> (js_error + Blob)" where
  "caught label message err = ([(label, err)], Inl (Error message))"

text \<open>
  \<open>name.replace(/\.[^/.]+$/, r)\<close>: the leftmost position from which a dot and
  then one or more characters other than slash and dot reach the end of the
  string is replaced by \<open>r\<close>.
\<close>

fun extension_at :: "string \<Rightarrow> bool" where
  "extension_at [] = False"
| "extension_at (c # cs) =
     (c = CHR ''.'' \<and> cs \<noteq> [] \<and> list_all (\<lambda>x. x \<noteq> CHR ''/'' \<and> x \<noteq> CHR ''.'') cs)"

fun replace_extension :: "string \<Rightarrow> string \<Rightarrow> string" where
  "replace_extension [] r = []"
| "replace_extension (c # cs) r =
     (if extension_at (c # cs) then r else c # replace_extension cs r)"

definition newline :: string where
  "newline = [CHR 0x0A]"

text \<open>
  \<open>try { ... } catch (error) { console.error(label, error); throw new Error(message) }\<close>
  in an \<open>async\<close> method. The \<open>try\<close> block either throws (\<open>Inl\<close>), which
  runs the \<open>catch\<close> block, or reaches its \<open>return\<close> (\<open>Inr\<close>). What it
  returns settles the method's promise: a plain value fulfils it, and a promise
  that is returned without \<open>await\<close> passes its own outcome on, the block
  having completed by the time that promise settles.
\<close>

definition try_catch ::
  "js_error + (js_error + Blob) \<Rightarrow> string \<Rightarrow> string \<Rightarrow> console \<times> (js_error + Blob)" where
  "try_catch block label message =
     (case block of
        Inr returned \<Rightarrow> ([], returned)
      | Inl err \<Rightarrow> caught label message err)"

subsection \<open>Office formats to PDF\<close>

definition wordToPdf :: "libraries \<Rightarrow> File \<Rightarrow> console \<times> (js_error + Blob)" where
  "wordToPdf L file =
     try_catch
       (andThen (arrayBuffer file) (\<lambda>arrayBuffer.
        andThen (mammoth_extractRawText L arrayBuffer) (\<lambda>result.
          Inr (createTextPdf L result (replace_extension (name file) ''.pdf'')))))
       ''Word to PDF conversion failed:'' ''Failed to convert Word document''"

fun excelToPdf_forEach :: "libraries \<Rightarrow> workbook \<Rightarrow> string \<Rightarrow> string list \<Rightarrow> js_error + string" where
  "excelToPdf_forEach L workbook content [] = Inr content"
| "excelToPdf_forEach L workbook content (sheetName # rest) =
     (let worksheet = map_of (Sheets workbook) sheetName in
      andThen (XLSX_sheet_to_csv L worksheet) (\<lambda>csvData.
        excelToPdf_forEach L workbook
          (content @ ''Sheet: '' @ sheetName @ newline @ csvData @ newline @ newline) rest))"

definition excelToPdf :: "libraries \<Rightarrow> File \<Rightarrow> console \<times> (js_error + Blob)" where
  "excelToPdf L file =
     try_catch
       (andThen (arrayBuffer file) (\<lambda>arrayBuffer.
        andThen (XLSX_read L arrayBuffer) (\<lambda>workbook.
        andThen (excelToPdf_forEach L workbook [] (SheetNames workbook)) (\<lambda>content.
          Inr (createTextPdf L content (replace_extension (name file) ''.pdf''))))))
       ''Excel to PDF conversion failed:'' ''Failed to convert Excel document''"

definition powerPointToPdf :: "libraries \<Rightarrow> File \<Rightarrow> console \<times> (js_error + Blob)" where
  "powerPointToPdf L file =
     try_catch
       (let content = ''PowerPoint Presentation: '' @ name file @ newline @ newline @
              ''This is a simplified conversion. The original presentation contained slides that would need specialized processing to maintain formatting.''
        in Inr (createTextPdf L content (replace_extension (name file) ''.pdf'')))
       ''PowerPoint to PDF conversion failed:'' ''Failed to convert PowerPoint document''"

subsection \<open>PDF to office formats\<close>

definition pdfToWord :: "libraries \<Rightarrow> File \<Rightarrow> console \<times> (js_error + Blob)" where
  "pdfToWord L file =
     try_catch
       (let content = ''Extracted content from: '' @ name file @ newline @ newline @
              ''This is a simplified text extraction from the PDF document. Advanced formatting, images, and complex layouts may not be preserved.'';
            blob = new_Blob (TextBytes content)
              ''application/vnd.openxmlformats-officedocument.wordprocessingml.document''
        in Inr (Inr blob))
       ''PDF to Word conversion failed:'' ''Failed to convert PDF to Word''"

definition pdfToExcel_rows :: "File \<Rightarrow> string list list" where
  "pdfToExcel_rows file =
     [[''Extracted from PDF:'', name file],
      [''Note:'', ''This is a simplified extraction''],
      [''Column 1'', ''Column 2'', ''Column 3''],
      [''Data 1'', ''Data 2'', ''Data 3'']]"

definition pdfToExcel :: "libraries \<Rightarrow> File \<Rightarrow> console \<times> (js_error + Blob)" where
  "pdfToExcel L file =
     try_catch
       (let ws = aoa_to_sheet (pdfToExcel_rows file);
            wb = book_new
        in andThen (book_append_sheet wb ws ''Extracted Data'') (\<lambda>wb'.
           andThen (XLSX_write L wb') (\<lambda>excelBuffer.
             Inr (Inr (new_Blob excelBuffer
               ''application/vnd.openxmlformats-officedocument.spreadsheetml.sheet'')))))
       ''PDF to Excel conversion failed:'' ''Failed to convert PDF to Excel''"

definition pdfToPowerPoint :: "libraries \<Rightarrow> File \<Rightarrow> console \<times> (js_error + Blob)" where
  "pdfToPowerPoint L file =
     try_catch
       (let content = ''PowerPoint conversion from: '' @ name file @ newline @ newline @
              ''This is a simplified conversion. Each PDF page would typically become a slide.''
        in Inr (Inr (new_Blob (TextBytes content)
              ''application/vnd.openxmlformats-officedocument.presentationml.presentation'')))
       ''PDF to PowerPoint conversion failed:'' ''Failed to convert PDF to PowerPoint''"

section \<open>Reading results back, sample inputs\<close>

text \<open>
  The pages of the PDF a method returned, found by reading the blob and loading
  it with the library; \<open>None\<close> when the method failed or returned no PDF.
\<close>

definition result_pages :: "js_error + Blob \<Rightarrow> PDFPage list option" where
  "result_pages r =
     (case andThen r (\<lambda>blob. andThen (arrayBuffer blob) PDFDocument_load) of
        Inr d \<Rightarrow> Some (pages d)
      | Inl e \<Rightarrow> None)"

text \<open>An A4 page with the given content, and a readable PDF file with the given pages.\<close>

definition example_page :: "string \<Rightarrow> PDFPage" where
  "example_page c = blank_page\<lparr>page_content := c\<rparr>"

definition pdf_file :: "string \<Rightarrow> PDFPage list \<Rightarrow> File" where
  "pdf_file n ps =
     \<lparr>mime_type = ''application/pdf'', contents = Inr (PdfBytes \<lparr>pages = ps\<rparr>), name = n\<rparr>"

text \<open>
  A file that can be read and holds a PDF, and the pages of that PDF
  (\<open>pages(a)\<close> for an input file \<open>a\<close>).
\<close>

definition is_pdf_file :: "File \<Rightarrow> bool" where
  "is_pdf_file f = (case arrayBuffer f of Inr (PdfBytes d) \<Rightarrow> True | _ \<Rightarrow> False)"

definition file_pages :: "File \<Rightarrow> PDFPage list" where
  "file_pages f = (case arrayBuffer f of Inr (PdfBytes d) \<Rightarrow> pages d | _ \<Rightarrow> [])"

text \<open>What \<open>save\<close> writes for a document with the given pages.\<close>

definition with_default_page :: "PDFPage list \<Rightarrow> PDFPage list" where
  "with_default_page ps = (if ps = [] then [blank_page] else ps)"

text \<open>The blob of a PDF that has the one given page.\<close>

definition single_page_pdf :: "PDFPage \<Rightarrow> Blob" where
  "single_page_pdf p = new_Blob (PdfBytes \<lparr>pages = [p]\<rparr>) ''application/pdf''"

text \<open>
  An image input: a file that can be read and holds an encoded image of positive
  width and height. \<open>file_image\<close> is that image as the library embeds it,
  and \<open>declared_kind\<close> the encoding \<open>imagesToPdf\<close> reads off the declared
  type of the file.
\<close>

definition is_image_file :: "File \<Rightarrow> bool" where
  "is_image_file f =
     (case arrayBuffer f of
        Inr (ImageBytes enc q c) \<Rightarrow> 0 < cwidth c \<and> 0 < cheight c
      | _ \<Rightarrow> False)"

definition file_image :: "File \<Rightarrow> PDFImage" where
  "file_image f =
     (case arrayBuffer f of
        Inr (ImageBytes enc q c) \<Rightarrow> \<lparr>image_kind = enc, picture = c\<rparr>
      | _ \<Rightarrow> \<lparr>image_kind = PNG, picture = \<lparr>cwidth = 0, cheight = 0, painted = []\<rparr>\<rparr>)"

definition declared_kind :: "File \<Rightarrow> image_encoding" where
  "declared_kind f = (if string_includes (mime_type f) ''png'' then PNG else JPEG)"

text \<open>The width and height of a new page, as \<open>getSize\<close> returns them.\<close>

definition page_width :: real where
  "page_width = fst (getSize blank_page)"

definition page_height :: real where
  "page_height = snd (getSize blank_page)"

text \<open>A readable image file of the given name, declared type, encoding and size.\<close>

definition image_file :: "string \<Rightarrow> string \<Rightarrow> image_encoding \<Rightarrow> nat \<Rightarrow> nat \<Rightarrow> File" where
  "image_file n t enc w h =
     \<lparr>mime_type = t,
      contents = Inr (ImageBytes enc None \<lparr>cwidth = w, cheight = h, painted = []\<rparr>),
      name = n\<rparr>"

text \<open>
  Sample libraries for concrete runs: text extraction and workbook writing
  succeed, and \<open>rendered\<close> is what jsPDF does with any text. \<open>docx_file\<close> is
  a readable file with a Word name and type.
\<close>

definition sample_libraries :: "js_error + bytes \<Rightarrow> libraries" where
  "sample_libraries rendered =
     \<lparr>mammoth_extractRawText = (\<lambda>b. Inr ''Hello''),
      XLSX_read = (\<lambda>b. case b of XlsxBytes wb \<Rightarrow> Inr wb | _ \<Rightarrow> Inl (Error ''Unsupported file'')),
      XLSX_sheet_to_csv = (\<lambda>ws. Inr []),
      XLSX_write = (\<lambda>wb. Inr (XlsxBytes wb)),
      jsPDF_text_output = (\<lambda>t. rendered)\<rparr>"

definition docx_file :: File where
  "docx_file =
     \<lparr>mime_type = ''application/vnd.openxmlformats-officedocument.wordprocessingml.document'',
      contents = Inr (RawBytes [80, 75, 3, 4]), name = ''letter.docx''\<rparr>"

section \<open>Properties of PDFProcessor\<close>

text \<open>
  Throughout, a valid PDF input is a file that can be read and whose bytes are a
  PDF: \<open>arrayBuffer file = Inr (PdfBytes d)\<close>, with \<open>d\<close> the document it
  holds. The document may have no pages: the library loads such a file, and
  \<open>save\<close> gives it a page.
\<close>

subsection \<open>Basic facts\<close>

lemma andThen_Inr [simp]: "andThen (Inr v) k = k v"
  by (simp add: andThen_def)

lemma andThen_Inl [simp]: "andThen (Inl e) k = Inl e"
  by (simp add: andThen_def)

lemma save_nonempty: "pages d \<noteq> [] \<Longrightarrow> save d = PdfBytes d"
  by (simp add: save_def save_with_def getPageCount_def)

lemma save_empty: "pages d = [] \<Longrightarrow> save d = PdfBytes \<lparr>pages = [blank_page]\<rparr>"
  by (simp add: save_def save_with_def getPageCount_def addPage_def)

lemma new_Blob_eq [simp]: "new_Blob a t = new_Blob b u \<longleftrightarrow> a = b \<and> t = u"
  by (auto simp: new_Blob_def)

lemma save_pages: "save \<lparr>pages = ps\<rparr> = PdfBytes \<lparr>pages = with_default_page ps\<rparr>"
  by (cases "ps = []") (simp_all add: save_empty save_nonempty with_default_page_def)

lemma save_document: "save d = PdfBytes \<lparr>pages = with_default_page (pages d)\<rparr>"
  by (cases d) (simp add: save_pages)

lemma result_pages_pdf [simp]:
  "result_pages (Inr (new_Blob (PdfBytes d) t)) = Some (pages d)"
  by (simp add: result_pages_def new_Blob_def arrayBuffer_def)

lemma result_pages_error [simp]: "result_pages (Inl e) = None"
  by (simp add: result_pages_def)

lemma arrayBuffer_pdf_file [simp]:
  "arrayBuffer (pdf_file n ps) = Inr (PdfBytes \<lparr>pages = ps\<rparr>)"
  by (simp add: arrayBuffer_def pdf_file_def)

lemma is_pdf_file_pdf_file [simp]: "is_pdf_file (pdf_file n ps)"
  by (simp add: is_pdf_file_def)

lemma file_pages_pdf_file [simp]: "file_pages (pdf_file n ps) = ps"
  by (simp add: file_pages_def)

subsection \<open>protectPdf\<close>

lemma protectPdf_any_file: "protectPdf file p1 = protectPdf file p2"
  by (simp add: protectPdf_def)

lemma protectPdf_result:
  assumes "arrayBuffer file = Inr (PdfBytes d)"
  shows "protectPdf file p
    = Inr (new_Blob (PdfBytes \<lparr>pages = with_default_page (pages d)\<rparr>) ''application/pdf'')"
  using assms by (simp add: protectPdf_def save_document)

text \<open>
  C2, as the code has it. \<open>protectPdf\<close> never looks at the password: any two
  passwords give the same output. For a valid PDF that output is the input
  document saved again: when the input has a page, the blob holds exactly the
  document loaded, so its pages (content, order, count) are those of the input;
  when it has none, the output has one page, the default page of \<open>save\<close>.
\<close>

theorem protectPdf_password_ignored:
  assumes "arrayBuffer file = Inr (PdfBytes d)"
  shows "protectPdf file p1 = protectPdf file p2
    \<and> result_pages (protectPdf file p1) = Some (if pages d = [] then [blank_page] else pages d)
    \<and> (pages d \<noteq> [] \<longrightarrow> protectPdf file p1 = Inr (new_Blob (PdfBytes d) ''application/pdf''))"
proof -
  have "protectPdf file p1 = Inr (new_Blob (PdfBytes d) ''application/pdf'')" if "pages d \<noteq> []"
    using that assms by (simp add: protectPdf_def save_nonempty)
  then show ?thesis
    by (simp add: protectPdf_result[OF assms] with_default_page_def)
qed

theorem protectPdf_password_ignored_witness:
  "protectPdf (pdf_file ''a.pdf'' [example_page ''A'', example_page ''B'']) ''secret''
     = protectPdf (pdf_file ''a.pdf'' [example_page ''A'', example_page ''B'']) ''other''
   \<and> result_pages (protectPdf (pdf_file ''a.pdf'' [example_page ''A'', example_page ''B'']) ''secret'')
     = Some [example_page ''A'', example_page ''B'']
   \<and> protectPdf (pdf_file ''a.pdf'' [example_page ''A'', example_page ''B'']) ''secret''
     = Inr (new_Blob (PdfBytes \<lparr>pages = [example_page ''A'', example_page ''B'']\<rparr>)
         ''application/pdf'')
   \<and> result_pages (protectPdf (pdf_file ''empty.pdf'' []) ''secret'') = Some [blank_page]"
proof -
  let ?f = "pdf_file ''a.pdf'' [example_page ''A'', example_page ''B'']"
  have valid: "arrayBuffer ?f = Inr (PdfBytes \<lparr>pages = [example_page ''A'', example_page ''B'']\<rparr>)"
    by simp
  have empty: "arrayBuffer (pdf_file ''empty.pdf'' []) = Inr (PdfBytes \<lparr>pages = []\<rparr>)"
    by simp
  note paged = protectPdf_password_ignored [OF valid, of "''secret''" "''other''"]
  note unpaged = protectPdf_password_ignored [OF empty, of "''secret''" "''other''"]
  have "protectPdf ?f ''secret'' = protectPdf ?f ''other''"
    using paged by (rule conjunct1)
  moreover have "result_pages (protectPdf ?f ''secret'') = Some [example_page ''A'', example_page ''B'']"
    using paged [THEN conjunct2, THEN conjunct1] by simp
  moreover have "protectPdf ?f ''secret''
     = Inr (new_Blob (PdfBytes \<lparr>pages = [example_page ''A'', example_page ''B'']\<rparr>) ''application/pdf'')"
    using paged [THEN conjunct2, THEN conjunct2] by simp
  moreover have "result_pages (protectPdf (pdf_file ''empty.pdf'' []) ''secret'') = Some [blank_page]"
    using unpaged [THEN conjunct2, THEN conjunct1] by simp
  ultimately show ?thesis by blast
qed

text \<open>
  The claim as stated has the output keep the page count of every valid PDF. A
  PDF without pages is loaded, and comes back with one page.
\<close>

theorem protectPdf_no_pages_counterexample:
  "is_pdf_file (pdf_file ''empty.pdf'' [])
   \<and> file_pages (pdf_file ''empty.pdf'' []) = []
   \<and> result_pages (protectPdf (pdf_file ''empty.pdf'' []) ''secret'') = Some [blank_page]
   \<and> map_option length (result_pages (protectPdf (pdf_file ''empty.pdf'' []) ''secret''))
       \<noteq> Some (length (file_pages (pdf_file ''empty.pdf'' [])))"
  by (simp add: protectPdf_result with_default_page_def)

subsection \<open>deletePages\<close>

lemma removePage_in_range:
  assumes "0 \<le> i" and "i < int (length (pages d))"
  shows "\<exists>d'. removePage d i = Inr d' \<and> length (pages d') = length (pages d) - 1"
  using assms by (auto simp: removePage_def min_def)

text \<open>
  The loop over strictly descending indices that are in range of the current
  document: every removal succeeds and each takes one page away.
\<close>

lemma forEach_strictly_descending:
  assumes "sorted_wrt (>) idxs"
    and "\<forall>i\<in>set idxs. 0 \<le> i \<and> i < int (length (pages d))"
    and "length (pages d) \<le> n"
  shows "\<exists>d'. deletePages_forEach n d idxs = Inr d'
           \<and> length (pages d') = length (pages d) - length idxs"
  using assms
proof (induction idxs arbitrary: d)
  case Nil
  then show ?case by simp
next
  case (Cons i rest)
  have i_range: "0 \<le> i" "i < int (length (pages d))"
    using Cons.prems(2) by auto
  have guard: "i < int n"
    using i_range(2) Cons.prems(3) by linarith
  obtain d1 where d1: "removePage d i = Inr d1" "length (pages d1) = length (pages d) - 1"
    using removePage_in_range[OF i_range] by blast
  have "\<forall>j\<in>set rest. 0 \<le> j \<and> j < int (length (pages d1))"
    using Cons.prems(1,2) d1(2) i_range by fastforce
  moreover have "sorted_wrt (>) rest"
    using Cons.prems(1) by simp
  moreover have "length (pages d1) \<le> n"
    using d1(2) Cons.prems(3) by linarith
  ultimately obtain d' where "deletePages_forEach n d1 rest = Inr d'"
    "length (pages d') = length (pages d1) - length rest"
    using Cons.IH by blast
  then show ?case
    using guard i_range d1 by simp
qed

lemma sort_descending_strict:
  assumes "distinct ps"
  shows "sorted_wrt (>) (sort_descending ps)"
proof -
  have "sorted_wrt (<) (sort ps)"
    using assms by (simp add: strict_sorted_iff)
  then show ?thesis
    by (simp add: sort_descending_def sorted_wrt_rev)
qed

lemma sort_descending_filter:
  "sort_descending (filter P ps) = filter P (sort_descending ps)"
  by (simp add: sort_descending_def filter_sort[symmetric] rev_filter)

text \<open>The guard of the loop: an index outside \<open>[0, totalPages)\<close> changes nothing.\<close>

lemma forEach_ignores_out_of_range:
  "deletePages_forEach n d idxs
     = deletePages_forEach n d (filter (\<lambda>i. 0 \<le> i \<and> i < int n) idxs)"
proof (induction idxs arbitrary: d)
  case Nil
  show ?case by simp
next
  case (Cons i rest)
  show ?case
  proof (cases "0 \<le> i \<and> i < int n")
    case True
    then show ?thesis
      using Cons.IH by (cases "removePage d i") simp_all
  next
    case False
    then show ?thesis using Cons.IH by auto
  qed
qed

lemma deletePages_valid:
  assumes "arrayBuffer file = Inr (PdfBytes d)"
  shows "deletePages file ps =
     andThen (deletePages_forEach (length (pages d)) d (sort_descending ps))
       (\<lambda>d'. Inr (new_Blob (save d') ''application/pdf''))"
  using assms by (simp add: deletePages_def getPageCount_def Let_def)

lemma deletePages_ignores_out_of_range:
  assumes "arrayBuffer file = Inr (PdfBytes d)"
  shows "deletePages file ps
     = deletePages file (filter (\<lambda>i. 0 \<le> i \<and> i < int (length (pages d))) ps)"
  unfolding deletePages_valid[OF assms] sort_descending_filter
  using forEach_ignores_out_of_range[of "length (pages d)" d "sort_descending ps"]
  by simp

lemma indices_in_range_length:
  assumes "distinct ps" and "\<forall>i\<in>set ps. 0 \<le> i \<and> i < int n"
  shows "length ps \<le> n"
proof -
  have "set ps \<subseteq> int ` {0..<n}"
  proof
    fix i assume "i \<in> set ps"
    then have "0 \<le> i" "i < int n" using assms(2) by auto
    then have "nat i \<in> {0..<n}" "i = int (nat i)" by auto
    then show "i \<in> int ` {0..<n}" by blast
  qed
  then have "card (set ps) \<le> card (int ` {0..<n})"
    by (intro card_mono) auto
  also have "\<dots> \<le> n"
    by (metis card_image_le finite_atLeastLessThan card_atLeastLessThan diff_zero)
  finally show ?thesis using assms(1) by (simp add: distinct_card)
qed

lemma deletePages_nothing:
  assumes "arrayBuffer file = Inr (PdfBytes d)"
  shows "deletePages file []
    = Inr (new_Blob (PdfBytes \<lparr>pages = with_default_page (pages d)\<rparr>) ''application/pdf'')"
  by (simp add: deletePages_valid[OF assms] sort_descending_def save_document)

text \<open>
  C5, as the code has it. For a valid PDF, \<open>deletePages(file, [])\<close> returns
  the document saved again: unchanged (same pages in the same order) when it
  has a page, and with the default page of \<open>save\<close> when it has none.
  Indices outside \<open>[0, pageCount)\<close> are ignored without an error: the result
  is the one obtained without them, and when every index is out of range it is
  the result of \<open>deletePages(file, [])\<close>.
\<close>

theorem deletePages_empty_and_out_of_range:
  assumes "arrayBuffer file = Inr (PdfBytes d)"
  shows "result_pages (deletePages file []) = Some (if pages d = [] then [blank_page] else pages d)
    \<and> (pages d \<noteq> [] \<longrightarrow> deletePages file [] = Inr (new_Blob (PdfBytes d) ''application/pdf''))
    \<and> deletePages file ps
        = deletePages file (filter (\<lambda>i. 0 \<le> i \<and> i < int (length (pages d))) ps)
    \<and> (list_all (\<lambda>i. i < 0 \<or> int (length (pages d)) \<le> i) ps
        \<longrightarrow> deletePages file ps = deletePages file [])"
proof -
  have empty: "result_pages (deletePages file [])
      = Some (if pages d = [] then [blank_page] else pages d)"
    by (simp add: deletePages_nothing[OF assms] with_default_page_def)
  have same: "deletePages file [] = Inr (new_Blob (PdfBytes d) ''application/pdf'')"
    if "pages d \<noteq> []"
    using that by (simp add: deletePages_valid[OF assms] sort_descending_def save_nonempty)
  have ignore: "deletePages file ps
        = deletePages file (filter (\<lambda>i. 0 \<le> i \<and> i < int (length (pages d))) ps)"
    by (rule deletePages_ignores_out_of_range[OF assms])
  have "deletePages file ps = deletePages file []"
    if "list_all (\<lambda>i. i < 0 \<or> int (length (pages d)) \<le> i) ps"
  proof -
    have "filter (\<lambda>i. 0 \<le> i \<and> i < int (length (pages d))) ps = []"
      using that by (auto simp: list_all_iff filter_empty_conv)
    then show ?thesis using ignore by simp
  qed
  then show ?thesis using empty same ignore by blast
qed

theorem deletePages_empty_and_out_of_range_witness:
  "result_pages (deletePages (pdf_file ''r.pdf'' [example_page ''A'', example_page ''B'']) [])
     = Some [example_page ''A'', example_page ''B'']
   \<and> deletePages (pdf_file ''r.pdf'' [example_page ''A'', example_page ''B'']) []
     = Inr (new_Blob (PdfBytes \<lparr>pages = [example_page ''A'', example_page ''B'']\<rparr>)
         ''application/pdf'')
   \<and> deletePages (pdf_file ''r.pdf'' [example_page ''A'', example_page ''B'']) [7, - 1, 1]
     = deletePages (pdf_file ''r.pdf'' [example_page ''A'', example_page ''B'']) [1]
   \<and> deletePages (pdf_file ''r.pdf'' [example_page ''A'', example_page ''B'']) [2, - 1]
     = deletePages (pdf_file ''r.pdf'' [example_page ''A'', example_page ''B'']) []
   \<and> result_pages (deletePages (pdf_file ''empty.pdf'' []) []) = Some [blank_page]"
proof -
  let ?d = "\<lparr>pages = [example_page ''A'', example_page ''B'']\<rparr>"
  let ?f = "pdf_file ''r.pdf'' [example_page ''A'', example_page ''B'']"
  have valid: "arrayBuffer ?f = Inr (PdfBytes ?d)"
    by simp
  have empty: "arrayBuffer (pdf_file ''empty.pdf'' []) = Inr (PdfBytes \<lparr>pages = []\<rparr>)"
    by simp
  have "result_pages (deletePages ?f []) = Some [example_page ''A'', example_page ''B'']"
    using deletePages_empty_and_out_of_range [OF valid, of "[]"] by simp
  moreover have "deletePages ?f [] = Inr (new_Blob (PdfBytes ?d) ''application/pdf'')"
    using deletePages_empty_and_out_of_range [OF valid, of "[]"] by simp
  moreover have "deletePages ?f [7, - 1, 1] = deletePages ?f [1]"
    using deletePages_empty_and_out_of_range [OF valid, of "[7, - 1, 1]"] by simp
  moreover have "deletePages ?f [2, - 1] = deletePages ?f []"
    using deletePages_empty_and_out_of_range [OF valid, of "[2, - 1]"] by simp
  moreover have "result_pages (deletePages (pdf_file ''empty.pdf'' []) []) = Some [blank_page]"
    using deletePages_empty_and_out_of_range [OF empty, of "[]"] by simp
  ultimately show ?thesis by blast
qed

text \<open>
  The claim as stated makes \<open>deletePages(file, [])\<close> and the deletion of an
  index at or beyond the page count keep the page count of every valid PDF. For
  a PDF without pages both return one page.
\<close>

theorem deletePages_no_pages_counterexample:
  "is_pdf_file (pdf_file ''empty.pdf'' [])
   \<and> file_pages (pdf_file ''empty.pdf'' []) = []
   \<and> result_pages (deletePages (pdf_file ''empty.pdf'' []) []) = Some [blank_page]
   \<and> map_option length (result_pages (deletePages (pdf_file ''empty.pdf'' []) []))
       \<noteq> Some (length (file_pages (pdf_file ''empty.pdf'' [])))
   \<and> map_option length (result_pages (deletePages (pdf_file ''empty.pdf'' []) [0]))
       \<noteq> Some (length (file_pages (pdf_file ''empty.pdf'' [])))"
  by (simp add: deletePages_def getPageCount_def sort_descending_def
      save_def save_with_def addPage_def)

lemma deletePages_count:
  assumes "arrayBuffer file = Inr (PdfBytes d)"
    and "distinct ps"
    and "\<forall>i\<in>set ps. 0 \<le> i \<and> i < int (length (pages d))"
  shows "map_option length (result_pages (deletePages file ps))
           = Some (if length ps = length (pages d) then 1 else length (pages d) - length ps)"
proof -
  have "\<forall>i\<in>set (sort_descending ps). 0 \<le> i \<and> i < int (length (pages d))"
    using assms(3) by (simp add: sort_descending_def)
  then obtain d1 where d1: "deletePages_forEach (length (pages d)) d (sort_descending ps) = Inr d1"
    "length (pages d1) = length (pages d) - length (sort_descending ps)"
    using forEach_strictly_descending[OF sort_descending_strict[OF assms(2)], of d "length (pages d)"]
    by blast
  have len: "length (pages d1) = length (pages d) - length ps"
    using d1(2) by (simp add: sort_descending_def)
  have bound: "length ps \<le> length (pages d)"
    by (rule indices_in_range_length[OF assms(2,3)])
  show ?thesis
  proof (cases "length ps = length (pages d)")
    case True
    then have "pages d1 = []" using len by simp
    then show ?thesis
      using True d1(1) by (simp add: deletePages_valid[OF assms(1)] save_empty)
  next
    case False
    then have "pages d1 \<noteq> []" using len bound by auto
    then show ?thesis
      using False d1(1) len by (simp add: deletePages_valid[OF assms(1)] save_nonempty)
  qed
qed

text \<open>
  The guard compares with the page count read before the loop. When the last
  index is listed twice, its second occurrence passes the guard although the
  document is one page shorter by then, and \<open>removePage\<close> throws.
\<close>

lemma deletePages_duplicate_last:
  assumes "arrayBuffer file = Inr (PdfBytes d)" and "pages d \<noteq> []"
  shows "\<exists>e. deletePages file [int (length (pages d)) - 1, int (length (pages d)) - 1] = Inl e"
proof -
  let ?n = "length (pages d)"
  let ?i = "int ?n - 1"
  have range: "0 \<le> ?i" "?i < int ?n"
    using assms(2) by (simp_all add: Suc_leI)
  obtain d1 where d1: "removePage d ?i = Inr d1" "length (pages d1) = ?n - 1"
    using removePage_in_range[OF range] by blast
  have "\<exists>e. removePage d1 ?i = Inl e"
    using d1(2) by (auto simp: removePage_def)
  then obtain e where "removePage d1 ?i = Inl e" by blast
  then have "deletePages_forEach ?n d [?i, ?i] = Inl e"
    using range d1(1) by simp
  moreover have "sort_descending [?i, ?i] = [?i, ?i]"
    by (simp add: sort_descending_def)
  ultimately show ?thesis
    by (simp add: deletePages_valid[OF assms(1)])
qed

text \<open>
  C10, as the code has it. For a valid PDF with \<open>n\<close> pages and pairwise
  distinct indices within \<open>[0, n)\<close>, every removal succeeds and the loop leaves
  \<open>n - length ps\<close> pages. The result is that document saved: when pages
  remain it has \<open>n - length ps\<close> pages, and when the list names all \<open>n\<close>
  pages \<open>save\<close> adds its default page, so the result has one page.
  Distinctness is needed: listing the last index twice makes the call fail.
\<close>

theorem deletePages_distinct_count:
  assumes "arrayBuffer file = Inr (PdfBytes d)"
  shows "(distinct ps \<and> list_all (\<lambda>i. 0 \<le> i \<and> i < int (length (pages d))) ps
      \<longrightarrow> map_option length (result_pages (deletePages file ps))
           = Some (if length ps = length (pages d) then 1 else length (pages d) - length ps))
    \<and> (pages d \<noteq> []
      \<longrightarrow> (\<exists>e. deletePages file [int (length (pages d)) - 1, int (length (pages d)) - 1]
              = Inl e))"
  using deletePages_count[OF assms] deletePages_duplicate_last[OF assms]
  by (simp add: list_all_iff)

theorem deletePages_distinct_count_witness:
  "map_option length (result_pages (deletePages
      (pdf_file ''r.pdf'' [example_page ''A'', example_page ''B'', example_page ''C'']) [0, 2]))
     = Some 1
   \<and> map_option length (result_pages (deletePages
      (pdf_file ''r.pdf'' [example_page ''A'', example_page ''B'', example_page ''C'']) [1, 2, 0]))
     = Some 1
   \<and> (\<exists>e. deletePages
      (pdf_file ''r.pdf'' [example_page ''A'', example_page ''B'', example_page ''C'']) [2, 2]
     = Inl e)"
proof -
  let ?d = "\<lparr>pages = [example_page ''A'', example_page ''B'', example_page ''C'']\<rparr>"
  let ?f = "pdf_file ''r.pdf'' [example_page ''A'', example_page ''B'', example_page ''C'']"
  have valid: "arrayBuffer ?f = Inr (PdfBytes ?d)"
    by simp
  have "map_option length (result_pages (deletePages ?f [0, 2])) = Some 1"
    using deletePages_distinct_count [OF valid, of "[0, 2]"] by simp
  moreover have "map_option length (result_pages (deletePages ?f [1, 2, 0])) = Some 1"
    using deletePages_distinct_count [OF valid, of "[1, 2, 0]"] by simp
  moreover have "\<exists>e. deletePages ?f [2, 2] = Inl e"
    using deletePages_distinct_count [OF valid, of "[]"] by simp
  ultimately show ?thesis by blast
qed

text \<open>
  The claim as stated promises \<open>n - length ps\<close> pages in every case. Deleting
  the only page of a one-page PDF gives a result with one page, not none.
\<close>

theorem deletePages_all_pages_counterexample:
  "map_option length (result_pages (deletePages (pdf_file ''r.pdf'' [example_page ''A'']) [0]))
     = Some 1
   \<and> map_option length (result_pages (deletePages (pdf_file ''r.pdf'' [example_page ''A'']) [0]))
     \<noteq> Some (length [example_page ''A''] - length [0 :: int])"
  by (simp add: deletePages_def getPageCount_def sort_descending_def removePage_def
      save_def save_with_def addPage_def)

subsection \<open>mergePdfs\<close>

lemma copyPages_upt:
  "j \<le> length (pages d) \<Longrightarrow> copyPages d [i..<j] = Inr (map ((!) (pages d)) [i..<j])"
proof (induction "j - i" arbitrary: i)
  case 0
  then show ?case by simp
next
  case (Suc k)
  then have "i < j" by linarith
  then have "[i..<j] = i # [Suc i..<j]" by (simp add: upt_conv_Cons)
  moreover have "copyPages d [Suc i..<j] = Inr (map ((!) (pages d)) [Suc i..<j])"
    using Suc by simp
  ultimately show ?case using Suc.prems \<open>i < j\<close> by simp
qed

lemma copyPages_all: "copyPages d (getPageIndices d) = Inr (pages d)"
  using copyPages_upt[of "length (pages d)" d 0] by (simp add: getPageIndices_def map_nth)

lemma addPages_pages: "pages (addPages d ps) = pages d @ ps"
  unfolding addPages_def
  by (induction ps arbitrary: d) (simp_all add: addPage_def)

lemma mergePdfs_loop_pages:
  assumes "list_all is_pdf_file files"
  shows "\<exists>m'. mergePdfs_loop m files = Inr m'
           \<and> pages m' = pages m @ concat (map file_pages files)"
  using assms
proof (induction files arbitrary: m)
  case Nil
  then show ?case by simp
next
  case (Cons f files)
  from Cons.prems obtain d where d: "arrayBuffer f = Inr (PdfBytes d)"
    by (auto simp: is_pdf_file_def split: sum.splits bytes.splits)
  then have fp: "file_pages f = pages d" by (simp add: file_pages_def)
  obtain m' where "mergePdfs_loop (addPages m (pages d)) files = Inr m'"
    "pages m' = pages (addPages m (pages d)) @ concat (map file_pages files)"
    using Cons.IH[of "addPages m (pages d)"] Cons.prems by auto
  then show ?case
    using d fp by (simp add: copyPages_all addPages_pages)
qed

lemma mergePdfs_result:
  assumes "list_all is_pdf_file files"
  shows "mergePdfs files
    = Inr (new_Blob (PdfBytes \<lparr>pages = with_default_page (concat (map file_pages files))\<rparr>)
        ''application/pdf'')"
proof -
  obtain m' where m': "mergePdfs_loop PDFDocument_create files = Inr m'"
    "pages m' = pages PDFDocument_create @ concat (map file_pages files)"
    using mergePdfs_loop_pages[OF assms] by blast
  then have p: "pages m' = concat (map file_pages files)"
    by (simp add: PDFDocument_create_def)
  have m'_eq: "m' = \<lparr>pages = concat (map file_pages files)\<rparr>"
    using p by (cases m') simp
  have "save m' = PdfBytes \<lparr>pages = with_default_page (concat (map file_pages files))\<rparr>"
    unfolding m'_eq by (rule save_pages)
  then show ?thesis using m'(1) by (simp add: mergePdfs_def)
qed

text \<open>
  C3, as the code has it. For valid PDF inputs the merged document holds the
  inputs' pages concatenated in list order; \<open>save\<close> writes them, or its
  default page when there are none (the empty list, say). For two inputs the
  pages are \<open>pages(a) @ pages(b)\<close>, and swapping the inputs changes the result
  exactly when the two page sequences do not commute.
\<close>

theorem mergePdfs_pages:
  assumes "list_all is_pdf_file files" and "is_pdf_file a" and "is_pdf_file b"
  shows "result_pages (mergePdfs files)
      = Some (if concat (map file_pages files) = [] then [blank_page]
              else concat (map file_pages files))
    \<and> (file_pages a @ file_pages b \<noteq> []
        \<longrightarrow> result_pages (mergePdfs [a, b]) = Some (file_pages a @ file_pages b))
    \<and> (mergePdfs [b, a] \<noteq> mergePdfs [a, b])
        = (file_pages b @ file_pages a \<noteq> file_pages a @ file_pages b)"
proof -
  have ab: "list_all is_pdf_file [a, b]" "list_all is_pdf_file [b, a]"
    using assms(2,3) by simp_all
  have "with_default_page xs = with_default_page ys \<longleftrightarrow> xs = ys"
    if "length xs = length ys" for xs ys :: "PDFPage list"
    using that by (auto simp: with_default_page_def)
  then have swap: "with_default_page (file_pages b @ file_pages a)
        = with_default_page (file_pages a @ file_pages b)
    \<longleftrightarrow> file_pages b @ file_pages a = file_pages a @ file_pages b"
    by simp
  have all: "result_pages (mergePdfs files)
      = Some (with_default_page (concat (map file_pages files)))"
    by (simp add: mergePdfs_result[OF assms(1)])
  have two: "result_pages (mergePdfs [a, b]) = Some (with_default_page (file_pages a @ file_pages b))"
    by (simp add: mergePdfs_result[OF ab(1)])
  have differ: "(mergePdfs [b, a] \<noteq> mergePdfs [a, b])
        = (file_pages b @ file_pages a \<noteq> file_pages a @ file_pages b)"
    using swap by (simp add: mergePdfs_result[OF ab(1)] mergePdfs_result[OF ab(2)])
  show ?thesis
    using all two differ unfolding with_default_page_def by presburger
qed

theorem mergePdfs_pages_witness:
  "result_pages (mergePdfs [pdf_file ''a.pdf'' [example_page ''A1'', example_page ''A2''],
                            pdf_file ''b.pdf'' [example_page ''B1''],
                            pdf_file ''c.pdf'' [example_page ''C1'']])
     = Some [example_page ''A1'', example_page ''A2'', example_page ''B1'', example_page ''C1'']
   \<and> result_pages (mergePdfs [pdf_file ''a.pdf'' [example_page ''A1'', example_page ''A2''],
                              pdf_file ''b.pdf'' [example_page ''B1'']])
     = Some [example_page ''A1'', example_page ''A2'', example_page ''B1'']
   \<and> mergePdfs [pdf_file ''b.pdf'' [example_page ''B1''],
                 pdf_file ''a.pdf'' [example_page ''A1'', example_page ''A2'']]
     \<noteq> mergePdfs [pdf_file ''a.pdf'' [example_page ''A1'', example_page ''A2''],
                   pdf_file ''b.pdf'' [example_page ''B1'']]"
proof -
  let ?a = "pdf_file ''a.pdf'' [example_page ''A1'', example_page ''A2'']"
  let ?b = "pdf_file ''b.pdf'' [example_page ''B1'']"
  let ?c = "pdf_file ''c.pdf'' [example_page ''C1'']"
  have valid: "list_all is_pdf_file [?a, ?b, ?c]" "is_pdf_file ?a" "is_pdf_file ?b"
    by simp_all
  have "example_page ''B1'' \<noteq> example_page ''A1''"
    by (simp add: example_page_def blank_page_def)
  then show ?thesis
    using mergePdfs_pages [OF valid] by simp
qed

text \<open>
  The claim as stated makes the two merges differ whenever \<open>a \<noteq> b\<close>. Two
  different files whose page sequences commute merge to the same result in
  either order.
\<close>

theorem mergePdfs_order_counterexample:
  "is_pdf_file (pdf_file ''a.pdf'' [example_page ''P''])
   \<and> is_pdf_file (pdf_file ''b.pdf'' [example_page ''P'', example_page ''P''])
   \<and> pdf_file ''a.pdf'' [example_page ''P''] \<noteq> pdf_file ''b.pdf'' [example_page ''P'', example_page ''P'']
   \<and> file_pages (pdf_file ''a.pdf'' [example_page ''P''])
       \<noteq> file_pages (pdf_file ''b.pdf'' [example_page ''P'', example_page ''P''])
   \<and> mergePdfs [pdf_file ''b.pdf'' [example_page ''P'', example_page ''P''],
                 pdf_file ''a.pdf'' [example_page ''P'']]
     = mergePdfs [pdf_file ''a.pdf'' [example_page ''P''],
                   pdf_file ''b.pdf'' [example_page ''P'', example_page ''P'']]"
proof -
  let ?a = "pdf_file ''a.pdf'' [example_page ''P'']"
  let ?b = "pdf_file ''b.pdf'' [example_page ''P'', example_page ''P'']"
  have "?a \<noteq> ?b"
    by (simp add: pdf_file_def)
  moreover have "file_pages ?a \<noteq> file_pages ?b"
    by simp
  moreover have "mergePdfs [?b, ?a] = mergePdfs [?a, ?b]"
    by (simp add: mergePdfs_result)
  ultimately show ?thesis by simp
qed

subsection \<open>splitPdf\<close>

lemma splitPdf_page_in_range:
  assumes "i < length (pages d)"
  shows "splitPdf_page d i = Inr (single_page_pdf (pages d ! i))"
  using assms
  by (simp add: splitPdf_page_def single_page_pdf_def PDFDocument_create_def addPage_def
      save_nonempty Let_def)

lemma splitPdf_loop_in_range:
  assumes "\<forall>i\<in>set idxs. i < length (pages d)"
  shows "splitPdf_loop d acc idxs = Inr (acc @ map (\<lambda>i. single_page_pdf (pages d ! i)) idxs)"
  using assms
  by (induction idxs arbitrary: acc) (simp_all add: splitPdf_page_in_range)

lemma splitPdf_result:
  assumes "arrayBuffer file = Inr (PdfBytes d)"
  shows "splitPdf file = Inr (map single_page_pdf (pages d))"
proof -
  have "splitPdf file = Inr (map (\<lambda>i. single_page_pdf (pages d ! i)) [0..<length (pages d)])"
    using assms by (simp add: splitPdf_def getPageCount_def splitPdf_loop_in_range)
  also have "map (\<lambda>i. single_page_pdf (pages d ! i)) [0..<length (pages d)]
      = map single_page_pdf (map ((!) (pages d)) [0..<length (pages d)])"
    by simp
  also have "\<dots> = map single_page_pdf (pages d)"
    by (simp only: map_nth)
  finally show ?thesis .
qed

text \<open>
  C4. For a valid PDF, \<open>splitPdf\<close> returns as many blobs as the input has
  pages; blob \<open>i\<close> is a PDF whose only page is page \<open>i\<close> of the input.
\<close>

theorem splitPdf_pages:
  assumes "arrayBuffer file = Inr (PdfBytes d)"
  shows "\<exists>blobs. splitPdf file = Inr blobs
    \<and> length blobs = length (pages d)
    \<and> (\<forall>i < length (pages d).
          blobs ! i = new_Blob (PdfBytes \<lparr>pages = [pages d ! i]\<rparr>) ''application/pdf''
          \<and> result_pages (Inr (blobs ! i)) = Some [pages d ! i])"
  using splitPdf_result[OF assms] by (simp add: single_page_pdf_def)

theorem splitPdf_pages_witness:
  "\<exists>blobs. splitPdf (pdf_file ''report.pdf''
                [example_page ''A'', example_page ''B'', example_page ''C'']) = Inr blobs
     \<and> length blobs = 3
     \<and> result_pages (Inr (blobs ! 0)) = Some [example_page ''A'']
     \<and> result_pages (Inr (blobs ! 1)) = Some [example_page ''B'']
     \<and> result_pages (Inr (blobs ! 2)) = Some [example_page ''C'']"
proof -
  let ?d = "\<lparr>pages = [example_page ''A'', example_page ''B'', example_page ''C'']\<rparr>"
  let ?f = "pdf_file ''report.pdf'' [example_page ''A'', example_page ''B'', example_page ''C'']"
  have valid: "arrayBuffer ?f = Inr (PdfBytes ?d)"
    by simp
  obtain blobs where blobs: "splitPdf ?f = Inr blobs" "length blobs = length (pages ?d)"
    "\<forall>i < length (pages ?d). blobs ! i = new_Blob (PdfBytes \<lparr>pages = [pages ?d ! i]\<rparr>) ''application/pdf''
          \<and> result_pages (Inr (blobs ! i)) = Some [pages ?d ! i]"
    using splitPdf_pages [OF valid] by blast
  have "result_pages (Inr (blobs ! 0)) = Some [example_page ''A'']"
    using blobs(3) by simp
  moreover have "result_pages (Inr (blobs ! 1)) = Some [example_page ''B'']"
    using blobs(3) by simp
  moreover have "result_pages (Inr (blobs ! 2)) = Some [example_page ''C'']"
    using blobs(3) by simp
  moreover have "length blobs = 3"
    using blobs(2) by simp
  ultimately show ?thesis using blobs(1) by blast
qed

subsection \<open>rotatePdf\<close>

lemma rotatePdf_forEach_multiple:
  assumes "degrees mod 90 = 0"
  shows "rotatePdf_forEach degrees ps = Inr (map (\<lambda>p. p\<lparr>rotation := degrees\<rparr>) ps)"
  using assms by (induction ps) (simp_all add: setRotation_def)

lemma rotatePdf_forEach_fails:
  assumes "degrees mod 90 \<noteq> 0" and "ps \<noteq> []"
  shows "rotatePdf_forEach degrees ps = Inl (Error ''degreesAngle must be a multiple of 90'')"
  using assms by (cases ps) (simp_all add: setRotation_def)

lemma rotatePdf_result:
  assumes "arrayBuffer file = Inr (PdfBytes d)" and "pages d \<noteq> []"
  shows "rotatePdf file degrees =
    (if degrees mod 90 = 0
     then Inr (new_Blob (PdfBytes \<lparr>pages = map (\<lambda>p. p\<lparr>rotation := degrees\<rparr>) (pages d)\<rparr>)
            ''application/pdf'')
     else Inl (Error ''degreesAngle must be a multiple of 90''))"
  using assms
  by (simp add: rotatePdf_def getPages_def rotatePdf_forEach_multiple rotatePdf_forEach_fails
      save_nonempty)

lemma arrayBuffer_new_File [simp]:
  "arrayBuffer (new_File (new_Blob data t) n) = Inr data"
  by (simp add: arrayBuffer_def new_File_def new_Blob_def)

lemma rotatePdf_no_pages:
  assumes "arrayBuffer file = Inr (PdfBytes d)" and "pages d = []"
  shows "rotatePdf file degrees
    = Inr (new_Blob (PdfBytes \<lparr>pages = [blank_page]\<rparr>) ''application/pdf'')"
  using assms by (simp add: rotatePdf_def getPages_def save_empty)

text \<open>
  C8, as the code has it. \<open>rotatePdf\<close> stores the given angle on every page,
  whatever the page's rotation was. For a valid PDF, \<open>rotatePdf(file, 90)\<close>
  succeeds, rotating its result by 90 again (as a file of any name) succeeds,
  and every page of the second result has rotation 90, not 180. When the input
  has a page the second result is the first one, and the same holds for every
  angle with which \<open>rotatePdf\<close> succeeds. When the input has no pages the
  first result holds the default page of \<open>save\<close>, added after the loop and
  so not rotated, and the second call rotates it.
\<close>

theorem rotatePdf_absolute:
  assumes "arrayBuffer file = Inr (PdfBytes d)"
  shows "(\<exists>b b'. rotatePdf file 90 = Inr b
            \<and> rotatePdf (new_File b n) 90 = Inr b'
            \<and> result_pages (Inr b')
                = Some (map (\<lambda>p. p\<lparr>rotation := 90\<rparr>)
                    (if pages d = [] then [blank_page] else pages d))
            \<and> list_all (\<lambda>p. rotation p = 90) (the (result_pages (Inr b')))
            \<and> (pages d \<noteq> [] \<longrightarrow> b' = b))
    \<and> (pages d \<noteq> [] \<longrightarrow>
         (\<forall>b. rotatePdf file degrees = Inr b \<longrightarrow>
            rotatePdf (new_File b n) degrees = Inr b
            \<and> result_pages (Inr b) = Some (map (\<lambda>p. p\<lparr>rotation := degrees\<rparr>) (pages d))))"
proof -
  have again: "rotatePdf (new_File b n) a = Inr b
      \<and> result_pages (Inr b) = Some (map (\<lambda>p. p\<lparr>rotation := a\<rparr>) (pages d))"
    if "rotatePdf file a = Inr b" and paged: "pages d \<noteq> []" for a b
  proof -
    have m: "a mod 90 = 0"
      using that rotatePdf_result[OF assms paged, of a] by (auto split: if_splits)
    then have b: "b = new_Blob (PdfBytes \<lparr>pages = map (\<lambda>p. p\<lparr>rotation := a\<rparr>) (pages d)\<rparr>)
        ''application/pdf''"
      using that rotatePdf_result[OF assms paged, of a] by simp
    have "rotatePdf (new_File b n) a = Inr b"
      unfolding b using paged m
      by (subst rotatePdf_result[where d = "\<lparr>pages = map (\<lambda>p. p\<lparr>rotation := a\<rparr>) (pages d)\<rparr>"])
        (simp_all add: comp_def)
    then show ?thesis using b by simp
  qed
  have twice: "\<exists>b b'. rotatePdf file 90 = Inr b
            \<and> rotatePdf (new_File b n) 90 = Inr b'
            \<and> result_pages (Inr b')
                = Some (map (\<lambda>p. p\<lparr>rotation := 90\<rparr>)
                    (if pages d = [] then [blank_page] else pages d))
            \<and> list_all (\<lambda>p. rotation p = 90) (the (result_pages (Inr b')))
            \<and> (pages d \<noteq> [] \<longrightarrow> b' = b)"
  proof (cases "pages d = []")
    case True
    let ?b = "new_Blob (PdfBytes \<lparr>pages = [blank_page]\<rparr>) ''application/pdf''"
    let ?b' = "new_Blob (PdfBytes \<lparr>pages = [blank_page\<lparr>rotation := 90\<rparr>]\<rparr>) ''application/pdf''"
    have first: "rotatePdf file 90 = Inr ?b"
      by (rule rotatePdf_no_pages[OF assms True])
    have second: "rotatePdf (new_File ?b n) 90 = Inr ?b'"
      by (subst rotatePdf_result[where d = "\<lparr>pages = [blank_page]\<rparr>"]) simp_all
    show ?thesis
      using True first second
      by (intro exI[of _ ?b] exI[of _ ?b']) simp
  next
    case False
    let ?b = "new_Blob (PdfBytes \<lparr>pages = map (\<lambda>p. p\<lparr>rotation := 90\<rparr>) (pages d)\<rparr>)
          ''application/pdf''"
    have first: "rotatePdf file 90 = Inr ?b"
      using rotatePdf_result[OF assms False, of 90] by simp
    have second: "rotatePdf (new_File ?b n) 90 = Inr ?b"
      using again[OF first False] by simp
    have all90: "list_all (\<lambda>p. rotation p = 90) (map (\<lambda>p. p\<lparr>rotation := 90\<rparr>) (pages d))"
      by (simp add: list_all_iff)
    show ?thesis
      using False first second all90
      by (intro exI[of _ ?b] exI[of _ ?b]) simp
  qed
  show ?thesis
    using twice again by blast
qed

theorem rotatePdf_absolute_witness:
  "(\<exists>b. rotatePdf (pdf_file ''in.pdf'' [(example_page ''A'')\<lparr>rotation := 90\<rparr>, example_page ''B'']) 90
         = Inr b
     \<and> rotatePdf (new_File b ''out.pdf'') 90 = Inr b
     \<and> result_pages (Inr b)
         = Some [(example_page ''A'')\<lparr>rotation := 90\<rparr>, (example_page ''B'')\<lparr>rotation := 90\<rparr>])
   \<and> (\<exists>b b'. rotatePdf (pdf_file ''empty.pdf'' []) 90 = Inr b
     \<and> rotatePdf (new_File b ''out.pdf'') 90 = Inr b'
     \<and> result_pages (Inr b') = Some [blank_page\<lparr>rotation := 90\<rparr>])"
proof -
  let ?ps = "[(example_page ''A'')\<lparr>rotation := 90\<rparr>, example_page ''B'']"
  have valid: "arrayBuffer (pdf_file ''in.pdf'' ?ps) = Inr (PdfBytes \<lparr>pages = ?ps\<rparr>)"
    by simp
  have empty: "arrayBuffer (pdf_file ''empty.pdf'' []) = Inr (PdfBytes \<lparr>pages = []\<rparr>)"
    by simp
  obtain b b' where b: "rotatePdf (pdf_file ''in.pdf'' ?ps) 90 = Inr b"
    "rotatePdf (new_File b ''out.pdf'') 90 = Inr b'"
    "result_pages (Inr b')
       = Some (map (\<lambda>p. p\<lparr>rotation := 90\<rparr>)
           (if pages \<lparr>pages = ?ps\<rparr> = [] then [blank_page] else pages \<lparr>pages = ?ps\<rparr>))"
    "pages \<lparr>pages = ?ps\<rparr> \<noteq> [] \<longrightarrow> b' = b"
    using rotatePdf_absolute [OF valid, of "''out.pdf''" 90] by blast
  have same: "b' = b"
    using b(4) by simp
  have paged: "\<exists>b. rotatePdf (pdf_file ''in.pdf'' ?ps) 90 = Inr b
     \<and> rotatePdf (new_File b ''out.pdf'') 90 = Inr b
     \<and> result_pages (Inr b)
         = Some [(example_page ''A'')\<lparr>rotation := 90\<rparr>, (example_page ''B'')\<lparr>rotation := 90\<rparr>]"
    using b(1,2,3) unfolding same by (intro exI[of _ b]) simp
  obtain c c' where c: "rotatePdf (pdf_file ''empty.pdf'' []) 90 = Inr c"
    "rotatePdf (new_File c ''out.pdf'') 90 = Inr c'"
    "result_pages (Inr c')
       = Some (map (\<lambda>p. p\<lparr>rotation := 90\<rparr>)
           (if pages \<lparr>pages = []\<rparr> = [] then [blank_page] else pages \<lparr>pages = []\<rparr>))"
    using rotatePdf_absolute [OF empty, of "''out.pdf''" 90] by blast
  have unpaged: "\<exists>b b'. rotatePdf (pdf_file ''empty.pdf'' []) 90 = Inr b
     \<and> rotatePdf (new_File b ''out.pdf'') 90 = Inr b'
     \<and> result_pages (Inr b') = Some [blank_page\<lparr>rotation := 90\<rparr>]"
    using c by (intro exI[of _ c] exI[of _ c']) simp
  show ?thesis
    using paged unpaged by blast
qed

text \<open>
  The claim as stated makes rotation with a fixed angle idempotent for every
  valid PDF. For a PDF without pages the second rotation changes the result of
  the first.
\<close>

theorem rotatePdf_no_pages_counterexample:
  "is_pdf_file (pdf_file ''empty.pdf'' [])
   \<and> rotatePdf (pdf_file ''empty.pdf'' []) 90
       = Inr (new_Blob (PdfBytes \<lparr>pages = [blank_page]\<rparr>) ''application/pdf'')
   \<and> rotation blank_page = 0
   \<and> rotatePdf (new_File (new_Blob (PdfBytes \<lparr>pages = [blank_page]\<rparr>) ''application/pdf'')
         ''again.pdf'') 90
       = Inr (new_Blob (PdfBytes \<lparr>pages = [blank_page\<lparr>rotation := 90\<rparr>]\<rparr>) ''application/pdf'')
   \<and> rotatePdf (new_File (new_Blob (PdfBytes \<lparr>pages = [blank_page]\<rparr>) ''application/pdf'')
         ''again.pdf'') 90
       \<noteq> rotatePdf (pdf_file ''empty.pdf'' []) 90"
proof -
  have first: "rotatePdf (pdf_file ''empty.pdf'' []) 90
       = Inr (new_Blob (PdfBytes \<lparr>pages = [blank_page]\<rparr>) ''application/pdf'')"
    by (simp add: rotatePdf_no_pages[where d = "\<lparr>pages = []\<rparr>"])
  have second: "rotatePdf (new_File (new_Blob (PdfBytes \<lparr>pages = [blank_page]\<rparr>) ''application/pdf'')
         ''again.pdf'') 90
       = Inr (new_Blob (PdfBytes \<lparr>pages = [blank_page\<lparr>rotation := 90\<rparr>]\<rparr>) ''application/pdf'')"
    by (subst rotatePdf_result[where d = "\<lparr>pages = [blank_page]\<rparr>"]) simp_all
  have zero: "rotation blank_page = 0"
    by (simp add: blank_page_def)
  have "blank_page\<lparr>rotation := 90\<rparr> \<noteq> blank_page"
    by (simp add: blank_page_def)
  then show ?thesis
    using first second zero by simp
qed

subsection \<open>pdfToImages\<close>

text \<open>
  Whatever the format argument, the type string handed to \<open>toBlob\<close> is
  \<open>image/jpg\<close> or \<open>image/png\<close>, and both give a PNG file: for a valid PDF
  the result is one PNG blob per page, of the 595 by 842 canvas with the white
  background and the page label.
\<close>

lemma pdfToImages_result:
  assumes "arrayBuffer file = Inr (PdfBytes d)"
  shows "pdfToImages file format
    = Inr (map (\<lambda>i. new_Blob (ImageBytes PNG None (page_canvas i)) ''image/png'')
        [0..<length (pages d)])"
  using assms
  by (cases format) (simp_all add: pdfToImages_def getPages_def toBlob_def Let_def)

lemma pdfToImages_count:
  assumes "arrayBuffer file = Inr (PdfBytes d)"
  shows "\<exists>blobs. pdfToImages file format = Inr blobs \<and> length blobs = length (pages d)"
  by (simp add: pdfToImages_result[OF assms])

lemma page_canvas_label:
  "cwidth (page_canvas i) = 595 \<and> cheight (page_canvas i) = 842
   \<and> painted (page_canvas i)
       = [FillRect ''white'' 0 0 595 842,
          FillText ''black'' ''20px Arial'' ''center'' (''Page '' @ show_nat (Suc i)) (595 / 2) 421]"
  by (simp add: page_canvas_def Let_def)

text \<open>
  C6. The count, the canvas size, the white background and the 1-based label are
  as claimed (\<open>pdfToImages_result\<close>, \<open>page_canvas_label\<close>). The encoding is
  not: asked for \<open>jpg\<close>, the method requests the type \<open>image/jpg\<close>, which is
  not the JPEG type \<open>image/jpeg\<close>, and the canvas is written as PNG, with no
  quality setting. On a one-page PDF:
\<close>

theorem pdfToImages_jpg_is_png:
  "pdfToImages (pdf_file ''a.pdf'' [example_page ''A'']) Jpg
     = Inr [new_Blob (ImageBytes PNG None
              \<lparr>cwidth = 595, cheight = 842,
               painted = [FillRect ''white'' 0 0 595 842,
                          FillText ''black'' ''20px Arial'' ''center'' ''Page 1'' (595 / 2) 421]\<rparr>)
            ''image/png'']"
  by (simp add: pdfToImages_result page_canvas_def Let_def digit_char_def)

subsection \<open>JavaScript numbers\<close>

text \<open>
  The rounding is monotone, leaves a double as it is, is exact on halving, and
  is off by at most one part in \<open>2^53\<close>. \<open>to_double_eval\<close> computes it
  once the exponent is known.
\<close>

lemma round_to_even_mono: "y \<le> z \<Longrightarrow> round_to_even y \<le> round_to_even z"
proof -
  assume yz: "y \<le> z"
  have fl: "\<lfloor>y\<rfloor> \<le> \<lfloor>z\<rfloor>" using yz by (rule floor_mono)
  show ?thesis
  proof (cases "\<lfloor>y\<rfloor> = \<lfloor>z\<rfloor>")
    case True
    then show ?thesis using yz by (auto simp: round_to_even_def Let_def)
  next
    case False
    then have "\<lfloor>y\<rfloor> + 1 \<le> \<lfloor>z\<rfloor>" using fl by linarith
    moreover have "round_to_even y \<le> \<lfloor>y\<rfloor> + 1" by (auto simp: round_to_even_def Let_def)
    moreover have "\<lfloor>z\<rfloor> \<le> round_to_even z" by (auto simp: round_to_even_def Let_def)
    ultimately show ?thesis by linarith
  qed
qed

lemma round_to_even_of_int [simp]: "round_to_even (of_int n) = n"
  by (simp add: round_to_even_def)

lemma round_to_even_error: "\<bar>of_int (round_to_even y) - y\<bar> \<le> 1 / 2"
proof -
  have "of_int \<lfloor>y\<rfloor> \<le> y" "y < of_int \<lfloor>y\<rfloor> + 1" by linarith+
  then show ?thesis by (auto simp: round_to_even_def Let_def)
qed

lemma round_to_even_bounds:
  assumes "of_int a \<le> y" and "y \<le> of_int b"
  shows "a \<le> round_to_even y" and "round_to_even y \<le> b"
  using round_to_even_mono[OF assms(1)] round_to_even_mono[OF assms(2)] by simp_all

lemma two_powr_52: "(2::real) powr (of_int k + 52) = 2 powr of_int k * 2 ^ 52"
  by (simp add: powr_add)

lemma two_powr_53: "(2::real) powr (of_int k + 53) = 2 powr of_int k * 2 ^ 53"
  by (simp add: powr_add)

lemma exponent_of_scaled:
  assumes "0 < x"
  shows "\<lfloor>log 2 x\<rfloor> = k + 52
    \<longleftrightarrow> 2 ^ 52 \<le> x / 2 powr of_int k \<and> x / 2 powr of_int k < 2 ^ 53"
proof -
  have pos: "(0::real) < 2 powr of_int k" by simp
  have "\<lfloor>log 2 x\<rfloor> = k + 52
    \<longleftrightarrow> 2 powr (of_int k + 52) \<le> x \<and> x < 2 powr (of_int k + 53)"
    using assms floor_log_eq_powr_iff[of x 2 "k + 52"] by (simp add: add.assoc)
  also have "\<dots> \<longleftrightarrow> 2 powr of_int k * 2 ^ 52 \<le> x \<and> x < 2 powr of_int k * 2 ^ 53"
    by (simp only: two_powr_52 two_powr_53)
  also have "\<dots> \<longleftrightarrow> 2 ^ 52 \<le> x / 2 powr of_int k \<and> x / 2 powr of_int k < 2 ^ 53"
    using pos by (simp only: pos_le_divide_eq pos_divide_less_eq mult.commute)
  finally show ?thesis .
qed

lemma to_double_scaled:
  assumes "0 < x" and "2 ^ 52 \<le> x / 2 powr of_int k" and "x / 2 powr of_int k < 2 ^ 53"
  shows "to_double x = of_int (round_to_even (x / 2 powr of_int k)) * 2 powr of_int k"
proof -
  have "\<lfloor>log 2 x\<rfloor> = k + 52"
    using assms by (simp only: exponent_of_scaled)
  then show ?thesis
    using assms(1) by (simp add: to_double_def)
qed

lemma scaled_range:
  assumes "0 < x"
  shows "2 ^ 52 \<le> x / 2 powr of_int (\<lfloor>log 2 x\<rfloor> - 52)"
    and "x / 2 powr of_int (\<lfloor>log 2 x\<rfloor> - 52) < 2 ^ 53"
  using exponent_of_scaled[OF assms, of "\<lfloor>log 2 x\<rfloor> - 52"] by simp_all


lemma to_double_canonical:
  assumes "0 < x"
  shows "to_double x = of_int (round_to_even (x / 2 powr of_int (\<lfloor>log 2 x\<rfloor> - 52)))
           * 2 powr of_int (\<lfloor>log 2 x\<rfloor> - 52)"
  using assms by (simp add: to_double_def)

lemma significand_bounds:
  assumes "0 < x"
  shows "2 ^ 52 \<le> round_to_even (x / 2 powr of_int (\<lfloor>log 2 x\<rfloor> - 52))"
    and "round_to_even (x / 2 powr of_int (\<lfloor>log 2 x\<rfloor> - 52)) \<le> 2 ^ 53"
proof -
  let ?s = "x / 2 powr of_int (\<lfloor>log 2 x\<rfloor> - 52)"
  have "of_int (2 ^ 52) \<le> ?s" "?s \<le> of_int (2 ^ 53)"
    using scaled_range[OF assms] by simp_all
  then show "2 ^ 52 \<le> round_to_even ?s" "round_to_even ?s \<le> 2 ^ 53"
    by (rule round_to_even_bounds)+
qed

lemma to_double_pos:
  assumes "0 < x"
  shows "0 < to_double x"
proof -
  have "(0::int) < 2 ^ 52" by simp
  then have "0 < round_to_even (x / 2 powr of_int (\<lfloor>log 2 x\<rfloor> - 52))"
    using significand_bounds(1)[OF assms] by linarith
  then show ?thesis
    by (simp add: to_double_canonical[OF assms])
qed

lemma to_double_error:
  assumes "0 < x"
  shows "\<bar>to_double x - x\<bar> \<le> x / 2 ^ 53"
proof -
  let ?p = "(2::real) powr of_int (\<lfloor>log 2 x\<rfloor> - 52)"
  let ?n = "round_to_even (x / ?p)"
  have pos: "0 < ?p" by simp
  have "to_double x - x = (of_int ?n - x / ?p) * ?p"
    using pos by (simp add: to_double_canonical[OF assms] algebra_simps)
  then have "\<bar>to_double x - x\<bar> = \<bar>of_int ?n - x / ?p\<bar> * ?p"
    using pos by (simp add: abs_mult)
  also have "\<dots> \<le> (1 / 2) * ?p"
    using round_to_even_error[of "x / ?p"] pos by (intro mult_right_mono) simp_all
  also have "\<dots> \<le> x / 2 ^ 53"
  proof -
    have "2 ^ 52 * ?p \<le> x"
      using scaled_range(1)[OF assms] pos by (simp add: pos_le_divide_eq)
    then show ?thesis by simp
  qed
  finally show ?thesis .
qed

lemma to_double_mono:
  assumes "0 < x" and "x \<le> y"
  shows "to_double x \<le> to_double y"
proof -
  have ypos: "0 < y" using assms by linarith
  let ?ex = "\<lfloor>log 2 x\<rfloor>" and ?ey = "\<lfloor>log 2 y\<rfloor>"
  have le: "?ex \<le> ?ey"
    using assms by (intro floor_mono) simp
  show ?thesis
  proof (cases "?ex = ?ey")
    case True
    have "x / 2 powr of_int (?ey - 52) \<le> y / 2 powr of_int (?ey - 52)"
      using assms(2) by (simp add: divide_right_mono)
    then have "round_to_even (x / 2 powr of_int (?ey - 52))
        \<le> round_to_even (y / 2 powr of_int (?ey - 52))"
      by (rule round_to_even_mono)
    then show ?thesis
      unfolding to_double_canonical[OF assms(1)] to_double_canonical[OF ypos] True
      by (intro mult_right_mono) simp_all
  next
    case False
    then have lt: "?ex + 1 \<le> ?ey" using le by linarith
    have "to_double x \<le> 2 ^ 53 * 2 powr of_int (?ex - 52)"
    proof -
      have "real_of_int (round_to_even (x / 2 powr of_int (?ex - 52))) \<le> real_of_int (2 ^ 53)"
        using significand_bounds(2)[OF assms(1)] by (simp only: of_int_le_iff)
      then show ?thesis
        unfolding to_double_canonical[OF assms(1)]
        by (intro mult_right_mono) simp_all
    qed
    also have "\<dots> = 2 powr of_int (?ex + 1)"
    proof -
      have "(2::real) powr of_int (?ex + 1) = 2 powr (of_int (?ex - 52) + 53)"
        by (rule arg_cong[where f = "\<lambda>z. 2 powr z"]) simp
      also have "\<dots> = 2 powr of_int (?ex - 52) * 2 ^ 53"
        by (rule two_powr_53)
      finally show ?thesis by simp
    qed
    also have "\<dots> \<le> 2 powr of_int ?ey"
      using lt by (intro powr_mono) simp_all
    also have "\<dots> = 2 ^ 52 * 2 powr of_int (?ey - 52)"
    proof -
      have "(2::real) powr of_int ?ey = 2 powr (of_int (?ey - 52) + 52)"
        by (rule arg_cong[where f = "\<lambda>z. 2 powr z"]) simp
      also have "\<dots> = 2 powr of_int (?ey - 52) * 2 ^ 52"
        by (rule two_powr_52)
      finally show ?thesis by simp
    qed
    also have "\<dots> \<le> to_double y"
    proof -
      have "real_of_int (2 ^ 52) \<le> real_of_int (round_to_even (y / 2 powr of_int (?ey - 52)))"
        using significand_bounds(1)[OF ypos] by (simp only: of_int_le_iff)
      then show ?thesis
        unfolding to_double_canonical[OF ypos]
        by (intro mult_right_mono) simp_all
    qed
    finally show ?thesis .
  qed
qed

lemma two_powr_Suc: "(2::real) powr of_int (k + 1) = 2 * 2 powr of_int k"
  by (simp add: powr_add)

lemma to_double_idem:
  assumes "0 < x"
  shows "to_double (to_double x) = to_double x"
proof -
  define k where "k = \<lfloor>log 2 x\<rfloor> - 52"
  define n where "n = round_to_even (x / 2 powr of_int k)"
  have d: "to_double x = of_int n * 2 powr of_int k"
    unfolding n_def k_def by (rule to_double_canonical[OF assms])
  have dpos: "0 < to_double x" by (rule to_double_pos[OF assms])
  have n: "2 ^ 52 \<le> n" "n \<le> 2 ^ 53"
    unfolding n_def k_def by (rule significand_bounds[OF assms])+
  show ?thesis
  proof (cases "n = 2 ^ 53")
    case True
    have val: "to_double x = 2 ^ 52 * 2 powr of_int (k + 1)"
      unfolding d True two_powr_Suc by simp
    have "to_double x / 2 powr of_int (k + 1) = 2 ^ 52"
      unfolding val by simp
    then have "to_double (to_double x)
        = of_int (round_to_even (2 ^ 52)) * 2 powr of_int (k + 1)"
      using to_double_scaled[OF dpos, of "k + 1"] by simp
    also have "round_to_even (2 ^ 52) = 2 ^ 52"
      using round_to_even_of_int[of "2 ^ 52"] by simp
    finally show ?thesis using val by simp
  next
    case False
    then have lt: "n < 2 ^ 53" using n(2) by linarith
    have q: "to_double x / 2 powr of_int k = of_int n"
      unfolding d by simp
    have "(2::real) ^ 52 \<le> of_int n" "real_of_int n < 2 ^ 53"
    proof -
      have "real_of_int (2 ^ 52) \<le> of_int n" using n(1) by (simp only: of_int_le_iff)
      then show "(2::real) ^ 52 \<le> of_int n" by simp
      have "real_of_int n < real_of_int (2 ^ 53)" using lt by (simp only: of_int_less_iff)
      then show "real_of_int n < 2 ^ 53" by simp
    qed
    then have "to_double (to_double x)
        = of_int (round_to_even (of_int n)) * 2 powr of_int k"
      using to_double_scaled[OF dpos, of k] unfolding q by simp
    then show ?thesis
      unfolding d by simp
  qed
qed


lemma to_double_zero [simp]: "to_double 0 = 0"
  by (simp add: to_double_def)

lemma to_double_half:
  assumes "0 < x"
  shows "to_double (x / 2) = to_double x / 2"
proof -
  define k where "k = \<lfloor>log 2 x\<rfloor> - 52"
  have r: "2 ^ 52 \<le> x / 2 powr of_int k" "x / 2 powr of_int k < 2 ^ 53"
    unfolding k_def by (rule scaled_range[OF assms])+
  have p: "(2::real) powr of_int k = 2 * 2 powr of_int (k - 1)"
    using two_powr_Suc[of "k - 1"] by simp
  have q: "x / 2 / 2 powr of_int (k - 1) = x / 2 powr of_int k"
    unfolding p by simp
  have half_pos: "0 < x / 2" using assms by simp
  have r': "2 ^ 52 \<le> x / 2 / 2 powr of_int (k - 1)" "x / 2 / 2 powr of_int (k - 1) < 2 ^ 53"
    using r by (simp_all only: q)
  have "to_double (x / 2)
      = of_int (round_to_even (x / 2 / 2 powr of_int (k - 1))) * 2 powr of_int (k - 1)"
    by (rule to_double_scaled[OF half_pos r'])
  also have "\<dots> = of_int (round_to_even (x / 2 powr of_int k)) * 2 powr of_int k / 2"
    unfolding q p by simp
  also have "\<dots> = to_double x / 2"
    unfolding k_def by (simp only: to_double_canonical[OF assms])
  finally show ?thesis .
qed

lemma to_double_eval:
  assumes "0 < x" and "2 ^ 52 \<le> x * 2 ^ m" and "x * 2 ^ m < 2 ^ 53"
  shows "to_double x = of_int (round_to_even (x * 2 ^ m)) / 2 ^ m"
proof -
  have p: "(2::real) powr of_int (- int m) = 1 / 2 ^ m"
    by (simp add: powr_minus powr_realpow divide_inverse)
  have q: "x / 2 powr of_int (- int m) = x * 2 ^ m"
    unfolding p by simp
  show ?thesis
    using to_double_scaled[OF assms(1), of "- int m"] assms(2,3)
    unfolding q p by simp
qed

lemma to_double_double2:
  assumes "0 \<le> z"
  shows "to_double (to_double z / 2) = to_double z / 2"
proof (cases "z = 0")
  case True
  then show ?thesis by simp
next
  case False
  then have "0 < z" using assms by simp
  then have "0 < to_double z" by (rule to_double_pos)
  then show ?thesis
    by (simp add: to_double_half to_double_idem[OF \<open>0 < z\<close>])
qed

text \<open>Relative error of one rounding, as two-sided bounds.\<close>

lemma to_double_between:
  assumes "0 < x"
  shows "(1 - 1 / 2 ^ 53) * x \<le> to_double x" and "to_double x \<le> (1 + 1 / 2 ^ 53) * x"
proof -
  have e: "\<bar>to_double x - x\<bar> \<le> x / 2 ^ 53"
    by (rule to_double_error[OF assms])
  have u: "(1 - 1 / 2 ^ 53) * x = x - x / 2 ^ 53" "(1 + 1 / 2 ^ 53) * x = x + x / 2 ^ 53"
    by (simp_all only: left_diff_distrib distrib_right mult_1 times_divide_eq_left)
  show "(1 - 1 / 2 ^ 53) * x \<le> to_double x" "to_double x \<le> (1 + 1 / 2 ^ 53) * x"
    unfolding u using e by linarith+
qed

text \<open>Two roundings in a row, the second of a quotient or of a product.\<close>

lemma ratio_after_division:
  fixes u t r q h W :: real
  assumes u: "0 < u" "u \<le> 1 / 4" and pos: "0 < t" "0 < q" "0 < h"
    and W: "W = q * r"
    and r: "(1 - u) * t \<le> r" "r \<le> (1 + u) * t"
    and h: "(1 - u) * q \<le> h" "h \<le> (1 + u) * q"
  shows "\<bar>W / h - t\<bar> \<le> 4 * u * t"
proof -
  have qt: "0 \<le> q * t" using pos by simp
  have upper: "W / h \<le> t + 4 * u * t"
  proof -
    have "W \<le> q * ((1 + u) * t)"
      unfolding W using r(2) pos(2) by (simp add: mult_left_mono)
    also have "\<dots> \<le> (t + 4 * u * t) * ((1 - u) * q)"
    proof -
      have "(t + 4 * u * t) * ((1 - u) * q) - q * ((1 + u) * t) = (q * t) * (2 * u * (1 - 2 * u))"
        by (simp add: algebra_simps)
      moreover have "0 \<le> 2 * u * (1 - 2 * u)"
        using u by (simp add: zero_le_mult_iff)
      then have "0 \<le> (q * t) * (2 * u * (1 - 2 * u))"
        using qt by (rule mult_nonneg_nonneg[rotated])
      ultimately show ?thesis by linarith
    qed
    also have "\<dots> \<le> (t + 4 * u * t) * h"
    proof -
      have "0 \<le> t + 4 * u * t" using pos(1) u(1) by simp
      then show ?thesis using h(1) by (rule mult_left_mono[rotated])
    qed
    finally show ?thesis
      using pos(3) by (simp add: pos_divide_le_eq)
  qed
  have lower: "t - 4 * u * t \<le> W / h"
  proof -
    have nn: "0 \<le> t - 4 * u * t"
    proof -
      have "t - 4 * u * t = t * (1 - 4 * u)" by (simp add: algebra_simps)
      moreover have "0 \<le> t * (1 - 4 * u)" using pos(1) u(2) by (simp add: zero_le_mult_iff)
      ultimately show ?thesis by simp
    qed
    have "(t - 4 * u * t) * h \<le> (t - 4 * u * t) * ((1 + u) * q)"
      using h(2) nn by (rule mult_left_mono)
    also have "\<dots> \<le> q * ((1 - u) * t)"
    proof -
      have "q * ((1 - u) * t) - (t - 4 * u * t) * ((1 + u) * q) = (q * t) * (2 * u * (1 + 2 * u))"
        by (simp add: algebra_simps)
      moreover have "0 \<le> 2 * u * (1 + 2 * u)"
        using u by (simp add: zero_le_mult_iff)
      then have "0 \<le> (q * t) * (2 * u * (1 + 2 * u))"
        using qt by (rule mult_nonneg_nonneg[rotated])
      ultimately show ?thesis by linarith
    qed
    also have "\<dots> \<le> W"
      unfolding W using r(1) pos(2) by (simp add: mult_left_mono)
    finally show ?thesis
      using pos(3) by (simp add: pos_le_divide_eq)
  qed
  show ?thesis using upper lower by (simp add: abs_le_iff)
qed

lemma ratio_after_product:
  fixes u t r w H :: real
  assumes u: "0 < u" "u \<le> 1 / 4" and pos: "0 < t" "0 < H"
    and r: "(1 - u) * t \<le> r" "r \<le> (1 + u) * t"
    and w: "(1 - u) * (H * r) \<le> w" "w \<le> (1 + u) * (H * r)"
  shows "\<bar>w / H - t\<bar> \<le> 4 * u * t"
proof -
  have Ht: "0 \<le> H * t" using pos by simp
  have upper: "w / H \<le> t + 4 * u * t"
  proof -
    have "H * r \<le> H * ((1 + u) * t)"
      using r(2) pos(2) by (simp add: mult_left_mono)
    then have "(1 + u) * (H * r) \<le> (1 + u) * (H * ((1 + u) * t))"
      using u(1) by (simp add: mult_left_mono)
    moreover have "(1 + u) * (H * ((1 + u) * t)) \<le> (t + 4 * u * t) * H"
    proof -
      have "(t + 4 * u * t) * H - (1 + u) * (H * ((1 + u) * t)) = (H * t) * (u * (2 - u))"
        by (simp add: algebra_simps power2_eq_square)
      moreover have "0 \<le> u * (2 - u)"
        using u by (simp add: zero_le_mult_iff)
      then have "0 \<le> (H * t) * (u * (2 - u))"
        using Ht by (rule mult_nonneg_nonneg[rotated])
      ultimately show ?thesis by linarith
    qed
    ultimately have "w \<le> (t + 4 * u * t) * H" using w(2) by linarith
    then show ?thesis using pos(2) by (simp add: pos_divide_le_eq)
  qed
  have lower: "t - 4 * u * t \<le> w / H"
  proof -
    have "H * ((1 - u) * t) \<le> H * r"
      using r(1) pos(2) by (simp add: mult_left_mono)
    then have "(1 - u) * (H * ((1 - u) * t)) \<le> (1 - u) * (H * r)"
      using u(2) by (simp add: mult_left_mono)
    moreover have "(t - 4 * u * t) * H \<le> (1 - u) * (H * ((1 - u) * t))"
    proof -
      have "(1 - u) * (H * ((1 - u) * t)) - (t - 4 * u * t) * H = (H * t) * (u * (2 + u))"
        by (simp add: algebra_simps power2_eq_square)
      moreover have "0 \<le> u * (2 + u)"
        using u by (simp add: zero_le_mult_iff)
      then have "0 \<le> (H * t) * (u * (2 + u))"
        using Ht by (rule mult_nonneg_nonneg[rotated])
      ultimately show ?thesis by linarith
    qed
    ultimately have "(t - 4 * u * t) * H \<le> w" using w(1) by linarith
    then show ?thesis using pos(2) by (simp add: pos_le_divide_eq)
  qed
  show ?thesis using upper lower by (simp add: abs_le_iff)
qed

subsection \<open>imagesToPdf\<close>

text \<open>The numbers of a new A4 page.\<close>

lemma page_width_value: "page_width = 5236138254259978 / 2 ^ 43"
  unfolding page_width_def getSize_def blank_page_def
  by (simp, subst to_double_eval[where m = 43]) (simp_all add: round_to_even_def)

lemma page_height_value: "page_height = 7405342754466693 / 2 ^ 43"
  unfolding page_height_def getSize_def blank_page_def
  by (simp, subst to_double_eval[where m = 43]) (simp_all add: round_to_even_def)

lemma page_ratio_value: "js_divide page_width page_height = 6368772134557029 / 2 ^ 53"
  unfolding js_divide_def page_width_value page_height_value
  by (subst to_double_eval[where m = 53]) (simp_all add: round_to_even_def)

lemma page_width_from_ratio:
  "js_times page_height (js_divide page_width page_height) = page_width"
  unfolding js_times_def page_ratio_value unfolding page_width_value page_height_value
  by (subst to_double_eval[where m = 43]) (simp_all add: round_to_even_def)

lemma page_size_pos: "0 < page_width" "0 < page_height"
  by (simp_all add: page_width_value page_height_value)

lemma page_size_doubles: "to_double page_width = page_width" "to_double page_height = page_height"
  unfolding page_width_def page_height_def getSize_def blank_page_def
  by (simp_all add: to_double_idem)


lemma getSize_blank_page: "getSize blank_page = (page_width, page_height)"
  by (simp add: page_width_def page_height_def)

lemma image_page_fit:
  assumes a: "0 < image_width img" and b: "0 < image_height img"
  shows "\<exists>x y w h. image_page img = blank_page\<lparr>drawn := [DrawImage img x y w h]\<rparr>
    \<and> \<bar>w / h - image_width img / image_height img\<bar>
        \<le> image_width img / image_height img / 2 ^ 51
    \<and> 0 < w \<and> 0 < h \<and> w \<le> page_width \<and> h \<le> page_height
    \<and> (w = page_width \<and> x = 0 \<or> h = page_height \<and> y = 0)
    \<and> x = js_minus page_width w / 2 \<and> y = js_minus page_height h / 2"
proof -
  define t where "t = image_width img / image_height img"
  define r where "r = js_divide (image_width img) (image_height img)"
  define u :: real where "u = 1 / 2 ^ 53"
  have u: "0 < u" "u \<le> 1 / 4" by (simp_all add: u_def)
  have four_u: "4 * u * t = t / 2 ^ 51" by (simp add: u_def)
  have t: "0 < t" using a b by (simp add: t_def)
  have r_def': "r = to_double t" by (simp add: r_def t_def js_divide_def)
  have r: "0 < r" "to_double r = r" "(1 - u) * t \<le> r" "r \<le> (1 + u) * t"
    unfolding r_def' u_def
    using to_double_pos[OF t] to_double_idem[OF t] to_double_between[OF t] by simp_all
  have W: "0 < page_width" "0 < page_height" by (rule page_size_pos)+
  have drawn: "drawn blank_page = []" by (simp add: blank_page_def)
  show ?thesis
  proof (cases "r > js_divide page_width page_height")
    case True
    define q where "q = page_width / r"
    define h where "h = js_divide page_width r"
    have q: "0 < q" "page_width = q * r" using W r(1) by (simp_all add: q_def)
    have h_def': "h = to_double q" by (simp add: h_def q_def js_divide_def)
    have h: "0 < h" "(1 - u) * q \<le> h" "h \<le> (1 + u) * q"
      unfolding h_def' u_def
      using to_double_pos[OF q(1)] to_double_between[OF q(1)] by simp_all
    have page: "image_page img = blank_page\<lparr>drawn :=
        [DrawImage img (js_divide (js_minus page_width page_width) 2)
           (js_divide (js_minus page_height h) 2) page_width h]\<rparr>"
      using True
      by (simp add: image_page_def Let_def getSize_blank_page drawImage_def drawn r_def h_def)
    have ratio: "\<bar>page_width / h - t\<bar> \<le> t / 2 ^ 51"
      using ratio_after_division[OF u t q(1) h(1) q(2) r(3,4) h(2,3)] four_u by simp
    have fits: "h \<le> page_height"
    proof -
      have "page_width / page_height \<le> r"
      proof (rule ccontr)
        assume "\<not> page_width / page_height \<le> r"
        then have "r \<le> page_width / page_height" by simp
        then have "to_double r \<le> to_double (page_width / page_height)"
          using r(1) by (rule to_double_mono[rotated])
        then show False
          using True r(2) by (simp add: js_divide_def)
      qed
      then have "q \<le> page_height"
        using W r(1) by (simp add: q_def field_simps)
      then have "to_double q \<le> to_double page_height"
        using q(1) by (rule to_double_mono[rotated])
      then show ?thesis by (simp add: h_def' page_size_doubles)
    qed
    have x: "js_divide (js_minus page_width page_width) 2 = 0"
      by (simp add: js_divide_def js_minus_def)
    have y: "js_divide (js_minus page_height h) 2 = js_minus page_height h / 2"
      using fits by (simp add: js_divide_def js_minus_def to_double_double2)
    have page': "image_page img = blank_page\<lparr>drawn :=
        [DrawImage img 0 (js_minus page_height h / 2) page_width h]\<rparr>"
      using page x y by simp
    have zero: "js_minus page_width page_width / 2 = 0"
      by (simp add: js_minus_def)
    show ?thesis
      by (rule exI[where x = 0], rule exI[where x = "js_minus page_height h / 2"],
          rule exI[where x = page_width], rule exI[where x = h])
        (use page' ratio h(1) W fits zero in \<open>simp add: t_def\<close>)
  next
    case False
    define w where "w = js_times page_height r"
    have Hr: "0 < page_height * r" using W r(1) by simp
    have w_def': "w = to_double (page_height * r)" by (simp add: w_def js_times_def)
    have w: "0 < w" "(1 - u) * (page_height * r) \<le> w" "w \<le> (1 + u) * (page_height * r)"
      unfolding w_def' u_def
      using to_double_pos[OF Hr] to_double_between[OF Hr] by simp_all
    have page: "image_page img = blank_page\<lparr>drawn :=
        [DrawImage img (js_divide (js_minus page_width w) 2)
           (js_divide (js_minus page_height page_height) 2) w page_height]\<rparr>"
      using False
      by (simp add: image_page_def Let_def getSize_blank_page drawImage_def drawn r_def w_def)
    have ratio: "\<bar>w / page_height - t\<bar> \<le> t / 2 ^ 51"
      using ratio_after_product[OF u t W(2) r(3,4) w(2,3)] four_u by simp
    have fits: "w \<le> page_width"
    proof -
      have "r \<le> js_divide page_width page_height" using False by simp
      then have "page_height * r \<le> page_height * js_divide page_width page_height"
        using W(2) by (simp add: mult_left_mono)
      then have "to_double (page_height * r)
          \<le> to_double (page_height * js_divide page_width page_height)"
        using Hr by (rule to_double_mono[rotated])
      then show ?thesis
        using page_width_from_ratio by (simp add: w_def' js_times_def)
    qed
    have y: "js_divide (js_minus page_height page_height) 2 = 0"
      by (simp add: js_divide_def js_minus_def)
    have x: "js_divide (js_minus page_width w) 2 = js_minus page_width w / 2"
      using fits by (simp add: js_divide_def js_minus_def to_double_double2)
    have page': "image_page img = blank_page\<lparr>drawn :=
        [DrawImage img (js_minus page_width w / 2) 0 w page_height]\<rparr>"
      using page x y by simp
    have zero: "js_minus page_height page_height / 2 = 0"
      by (simp add: js_minus_def)
    show ?thesis
      by (rule exI[where x = "js_minus page_width w / 2"], rule exI[where x = 0],
          rule exI[where x = w], rule exI[where x = page_height])
        (use page' ratio w(1) W fits zero in \<open>simp add: t_def\<close>)
  qed
qed


text \<open>The embedder is picked from the declared type, and accepts its own encoding only.\<close>

lemma embed_by_declared_kind:
  "(if string_includes (mime_type f) ''png'' then embedPng (ImageBytes enc q c)
    else embedJpg (ImageBytes enc q c))
   = (if enc = declared_kind f then Inr \<lparr>image_kind = enc, picture = c\<rparr>
      else Inl (Error (if declared_kind f = PNG then ''The input is not a PNG file''
                       else ''The input is not a JPEG file'')))"
  by (cases enc) (simp_all add: declared_kind_def)

lemma is_image_file_bytes:
  assumes "is_image_file f"
  obtains enc q c where "arrayBuffer f = Inr (ImageBytes enc q c)"
    and "file_image f = \<lparr>image_kind = enc, picture = c\<rparr>"
    and "0 < cwidth c" and "0 < cheight c"
  using assms
  by (auto simp: is_image_file_def file_image_def split: sum.splits bytes.splits)

lemma imagesToPdf_loop_pages:
  assumes "list_all is_image_file files"
    and "list_all (\<lambda>f. image_kind (file_image f) = declared_kind f) files"
  shows "\<exists>d'. imagesToPdf_loop d files = Inr d'
    \<and> pages d' = pages d @ map (\<lambda>f. image_page (file_image f)) files"
  using assms
proof (induction files arbitrary: d)
  case Nil
  then show ?case by simp
next
  case (Cons f files)
  from Cons.prems(1) have "is_image_file f" by simp
  then obtain enc q c where f: "arrayBuffer f = Inr (ImageBytes enc q c)"
    "file_image f = \<lparr>image_kind = enc, picture = c\<rparr>"
    by (rule is_image_file_bytes)
  have kind: "enc = declared_kind f"
    using Cons.prems(2) f(2) by simp
  obtain d' where "imagesToPdf_loop (addPage d (image_page (file_image f))) files = Inr d'"
    "pages d' = pages (addPage d (image_page (file_image f)))
       @ map (\<lambda>f. image_page (file_image f)) files"
    using Cons.IH Cons.prems by auto
  then show ?case
    using f kind by (simp add: embed_by_declared_kind addPage_def)
qed

lemma imagesToPdf_loop_mismatch:
  assumes "list_all is_image_file files"
    and "\<not> list_all (\<lambda>f. image_kind (file_image f) = declared_kind f) files"
  shows "\<exists>e. imagesToPdf_loop d files = Inl e"
  using assms
proof (induction files arbitrary: d)
  case Nil
  then show ?case by simp
next
  case (Cons f files)
  from Cons.prems(1) have "is_image_file f" by simp
  then obtain enc q c where f: "arrayBuffer f = Inr (ImageBytes enc q c)"
    "file_image f = \<lparr>image_kind = enc, picture = c\<rparr>"
    by (rule is_image_file_bytes)
  show ?case
  proof (cases "enc = declared_kind f")
    case True
    then have "\<not> list_all (\<lambda>f. image_kind (file_image f) = declared_kind f) files"
      using Cons.prems(2) f(2) by simp
    then obtain e where "imagesToPdf_loop (addPage d (image_page (file_image f))) files = Inl e"
      using Cons.IH Cons.prems(1) by auto
    then show ?thesis
      using f True by (simp add: embed_by_declared_kind)
  next
    case False
    then show ?thesis
      using f by (simp add: embed_by_declared_kind)
  qed
qed

lemma is_image_file_positive:
  assumes "is_image_file f"
  shows "0 < image_width (file_image f)" "0 < image_height (file_image f)"
proof -
  obtain enc q c where "arrayBuffer f = Inr (ImageBytes enc q c)"
    "file_image f = \<lparr>image_kind = enc, picture = c\<rparr>"
    "0 < cwidth c" "0 < cheight c"
    using assms by (rule is_image_file_bytes)
  then show "0 < image_width (file_image f)" "0 < image_height (file_image f)"
    by (simp_all add: image_width_def image_height_def to_double_pos)
qed

text \<open>
  C9, as the code has it. An image input is a file that can be read and holds a
  PNG or JPEG image of positive width and height. When the encoding of every
  input is the one its declared type selects (PNG when the type contains
  \<open>png\<close>, JPEG otherwise), each input gets a page of its own, in input order,
  with that one image drawn on it. The drawn width and height are positive and
  within the page; one of them is the page's own, with offset 0 on that axis; the
  offsets are half the leftover on each axis. The aspect ratio is kept up to
  rounding: the quotient of the drawn width and height is within one part in
  \<open>2^51\<close> of the quotient of the image's. When the encoding of some input is
  not the one its declared type selects, the embedder throws and the call fails.
\<close>

theorem imagesToPdf_pages:
  assumes "list_all is_image_file files"
  shows "(list_all (\<lambda>f. image_kind (file_image f) = declared_kind f) files \<longrightarrow>
      (\<exists>ps. result_pages (imagesToPdf files) = Some ps
        \<and> (files \<noteq> [] \<longrightarrow> length ps = length files)
        \<and> (\<forall>i < length files. \<exists>x y w h.
              ps ! i = blank_page\<lparr>drawn := [DrawImage (file_image (files ! i)) x y w h]\<rparr>
              \<and> \<bar>w / h - image_width (file_image (files ! i)) / image_height (file_image (files ! i))\<bar>
                  \<le> image_width (file_image (files ! i)) / image_height (file_image (files ! i))
                     / 2 ^ 51
              \<and> 0 < w \<and> 0 < h \<and> w \<le> page_width \<and> h \<le> page_height
              \<and> (w = page_width \<and> x = 0 \<or> h = page_height \<and> y = 0)
              \<and> x = js_minus page_width w / 2 \<and> y = js_minus page_height h / 2)))
    \<and> (\<not> list_all (\<lambda>f. image_kind (file_image f) = declared_kind f) files \<longrightarrow>
      (\<exists>e. imagesToPdf files = Inl e))"
proof (intro conjI impI)
  assume kinds: "list_all (\<lambda>f. image_kind (file_image f) = declared_kind f) files"
  let ?ps = "map (\<lambda>f. image_page (file_image f)) files"
  obtain d' where d': "imagesToPdf_loop PDFDocument_create files = Inr d'"
    "pages d' = pages PDFDocument_create @ ?ps"
    using imagesToPdf_loop_pages[OF assms kinds] by blast
  then have "d' = \<lparr>pages = ?ps\<rparr>"
    by (cases d') (simp add: PDFDocument_create_def)
  then have res: "result_pages (imagesToPdf files) = Some (with_default_page ?ps)"
    using d'(1) by (simp add: imagesToPdf_def save_pages)
  have len: "length (with_default_page ?ps) = length files" if "files \<noteq> []"
    using that by (simp add: with_default_page_def)
  have each: "\<exists>x y w h.
          with_default_page ?ps ! i
            = blank_page\<lparr>drawn := [DrawImage (file_image (files ! i)) x y w h]\<rparr>
          \<and> \<bar>w / h - image_width (file_image (files ! i)) / image_height (file_image (files ! i))\<bar>
              \<le> image_width (file_image (files ! i)) / image_height (file_image (files ! i))
                 / 2 ^ 51
          \<and> 0 < w \<and> 0 < h \<and> w \<le> page_width \<and> h \<le> page_height
          \<and> (w = page_width \<and> x = 0 \<or> h = page_height \<and> y = 0)
          \<and> x = js_minus page_width w / 2 \<and> y = js_minus page_height h / 2"
    if "i < length files" for i
  proof -
    have img: "is_image_file (files ! i)"
      using assms that by (simp add: list_all_length)
    have "files \<noteq> []" using that by auto
    then have "with_default_page ?ps ! i = image_page (file_image (files ! i))"
      using that by (simp add: with_default_page_def)
    then show ?thesis
      using image_page_fit[OF is_image_file_positive[OF img]] by simp
  qed
  show "\<exists>ps. result_pages (imagesToPdf files) = Some ps
        \<and> (files \<noteq> [] \<longrightarrow> length ps = length files)
        \<and> (\<forall>i < length files. \<exists>x y w h.
              ps ! i = blank_page\<lparr>drawn := [DrawImage (file_image (files ! i)) x y w h]\<rparr>
              \<and> \<bar>w / h - image_width (file_image (files ! i)) / image_height (file_image (files ! i))\<bar>
                  \<le> image_width (file_image (files ! i)) / image_height (file_image (files ! i))
                     / 2 ^ 51
              \<and> 0 < w \<and> 0 < h \<and> w \<le> page_width \<and> h \<le> page_height
              \<and> (w = page_width \<and> x = 0 \<or> h = page_height \<and> y = 0)
              \<and> x = js_minus page_width w / 2 \<and> y = js_minus page_height h / 2)"
    using res len each by blast
next
  assume "\<not> list_all (\<lambda>f. image_kind (file_image f) = declared_kind f) files"
  then obtain e where "imagesToPdf_loop PDFDocument_create files = Inl e"
    using imagesToPdf_loop_mismatch[OF assms] by blast
  then show "\<exists>e. imagesToPdf files = Inl e"
    by (simp add: imagesToPdf_def)
qed


lemma is_image_file_image_file [simp]:
  "is_image_file (image_file n t enc w h) = (0 < w \<and> 0 < h)"
  by (simp add: is_image_file_def image_file_def arrayBuffer_def)

lemma file_image_image_file [simp]:
  "file_image (image_file n t enc w h)
     = \<lparr>image_kind = enc, picture = \<lparr>cwidth = w, cheight = h, painted = []\<rparr>\<rparr>"
  by (simp add: file_image_def image_file_def arrayBuffer_def)

lemma declared_kind_image_file [simp]:
  "declared_kind (image_file n t enc w h) = (if string_includes t ''png'' then PNG else JPEG)"
  by (simp add: declared_kind_def image_file_def)

lemma to_double_100: "to_double 100 = 100"
  by (subst to_double_eval[where m = 46]) (simp_all add: round_to_even_def)

lemma to_double_200: "to_double 200 = 200"
  by (subst to_double_eval[where m = 45]) (simp_all add: round_to_even_def)

lemma to_double_400: "to_double 400 = 400"
  by (subst to_double_eval[where m = 44]) (simp_all add: round_to_even_def)

lemma to_double_1080: "to_double 1080 = 1080"
  by (subst to_double_eval[where m = 42]) (simp_all add: round_to_even_def)

lemma to_double_1920: "to_double 1920 = 1920"
  by (subst to_double_eval[where m = 42]) (simp_all add: round_to_even_def)

text \<open>
  A wide PNG and a tall JPEG, each declared as what it is; then the same tall
  image as a PNG file declared \<open>image/jpeg\<close>.
\<close>

theorem imagesToPdf_pages_witness:
  "(\<exists>ps. result_pages (imagesToPdf [image_file ''wide.png'' ''image/png'' PNG 200 100,
                                    image_file ''tall.jpg'' ''image/jpeg'' JPEG 100 400]) = Some ps
     \<and> length ps = 2
     \<and> (\<exists>x y w h.
          ps ! 0 = blank_page\<lparr>drawn :=
            [DrawImage \<lparr>image_kind = PNG, picture = \<lparr>cwidth = 200, cheight = 100, painted = []\<rparr>\<rparr>
               x y w h]\<rparr>
          \<and> \<bar>w / h - 2\<bar> \<le> 2 / 2 ^ 51
          \<and> 0 < w \<and> 0 < h \<and> w \<le> page_width \<and> h \<le> page_height
          \<and> (w = page_width \<and> x = 0 \<or> h = page_height \<and> y = 0)
          \<and> x = js_minus page_width w / 2 \<and> y = js_minus page_height h / 2)
     \<and> (\<exists>x y w h.
          ps ! 1 = blank_page\<lparr>drawn :=
            [DrawImage \<lparr>image_kind = JPEG, picture = \<lparr>cwidth = 100, cheight = 400, painted = []\<rparr>\<rparr>
               x y w h]\<rparr>
          \<and> \<bar>w / h - 1 / 4\<bar> \<le> 1 / 4 / 2 ^ 51
          \<and> 0 < w \<and> 0 < h \<and> w \<le> page_width \<and> h \<le> page_height
          \<and> (w = page_width \<and> x = 0 \<or> h = page_height \<and> y = 0)
          \<and> x = js_minus page_width w / 2 \<and> y = js_minus page_height h / 2))
   \<and> (\<exists>e. imagesToPdf [image_file ''wide.png'' ''image/png'' PNG 200 100,
                         image_file ''really.png'' ''image/jpeg'' PNG 100 400] = Inl e)"
proof -
  let ?wide = "image_file ''wide.png'' ''image/png'' PNG 200 100"
  let ?tall = "image_file ''tall.jpg'' ''image/jpeg'' JPEG 100 400"
  let ?other = "image_file ''really.png'' ''image/jpeg'' PNG 100 400"
  let ?files = "[?wide, ?tall]"
  have images: "list_all is_image_file ?files" "list_all is_image_file [?wide, ?other]"
    by simp_all
  have kinds: "list_all (\<lambda>f. image_kind (file_image f) = declared_kind f) ?files"
    by simp
  have mismatch: "\<not> list_all (\<lambda>f. image_kind (file_image f) = declared_kind f) [?wide, ?other]"
    by simp
  obtain ps where ps: "result_pages (imagesToPdf ?files) = Some ps"
    "?files \<noteq> [] \<longrightarrow> length ps = length ?files"
    "\<forall>i < length ?files. \<exists>x y w h.
          ps ! i = blank_page\<lparr>drawn := [DrawImage (file_image (?files ! i)) x y w h]\<rparr>
          \<and> \<bar>w / h - image_width (file_image (?files ! i)) / image_height (file_image (?files ! i))\<bar>
              \<le> image_width (file_image (?files ! i)) / image_height (file_image (?files ! i))
                 / 2 ^ 51
          \<and> 0 < w \<and> 0 < h \<and> w \<le> page_width \<and> h \<le> page_height
          \<and> (w = page_width \<and> x = 0 \<or> h = page_height \<and> y = 0)
          \<and> x = js_minus page_width w / 2 \<and> y = js_minus page_height h / 2"
    using imagesToPdf_pages [OF images(1)] kinds by blast
  have len: "length ps = 2"
    using ps(2) by simp
  have first: "\<exists>x y w h.
          ps ! 0 = blank_page\<lparr>drawn :=
            [DrawImage \<lparr>image_kind = PNG, picture = \<lparr>cwidth = 200, cheight = 100, painted = []\<rparr>\<rparr>
               x y w h]\<rparr>
          \<and> \<bar>w / h - 2\<bar> \<le> 2 / 2 ^ 51
          \<and> 0 < w \<and> 0 < h \<and> w \<le> page_width \<and> h \<le> page_height
          \<and> (w = page_width \<and> x = 0 \<or> h = page_height \<and> y = 0)
          \<and> x = js_minus page_width w / 2 \<and> y = js_minus page_height h / 2"
    using ps(3)[rule_format, of 0]
    by (simp add: image_width_def image_height_def to_double_100 to_double_200)
  have second: "\<exists>x y w h.
          ps ! 1 = blank_page\<lparr>drawn :=
            [DrawImage \<lparr>image_kind = JPEG, picture = \<lparr>cwidth = 100, cheight = 400, painted = []\<rparr>\<rparr>
               x y w h]\<rparr>
          \<and> \<bar>w / h - 1 / 4\<bar> \<le> 1 / 4 / 2 ^ 51
          \<and> 0 < w \<and> 0 < h \<and> w \<le> page_width \<and> h \<le> page_height
          \<and> (w = page_width \<and> x = 0 \<or> h = page_height \<and> y = 0)
          \<and> x = js_minus page_width w / 2 \<and> y = js_minus page_height h / 2"
    using ps(3)[rule_format, of 1]
    by (simp add: image_width_def image_height_def to_double_100 to_double_400)
  have fails: "\<exists>e. imagesToPdf [?wide, ?other] = Inl e"
    using imagesToPdf_pages [OF images(2)] mismatch by blast
  show ?thesis
    using ps(1) len first second fails by blast
qed

text \<open>A 1920 by 1080 image, step by step.\<close>

lemma hd_ratio: "js_divide 1920 1080 = 8006399337547548 / 2 ^ 52"
  unfolding js_divide_def
  by (subst to_double_eval[where m = 52]) (simp_all add: round_to_even_def)

lemma hd_height: "js_divide page_width (8006399337547548 / 2 ^ 52) = 5890655536042476 / 2 ^ 44"
  unfolding js_divide_def page_width_value
  by (subst to_double_eval[where m = 44]) (simp_all add: round_to_even_def)

lemma hd_offset:
  "js_divide (js_minus page_height (5890655536042476 / 2 ^ 44)) 2 = 8920029972890910 / 2 ^ 45"
proof -
  have leftover: "js_minus page_height (5890655536042476 / 2 ^ 44) = 8920029972890910 / 2 ^ 44"
    unfolding js_minus_def page_height_value
    by (subst to_double_eval[where m = 44]) (simp_all add: round_to_even_def)
  have half: "js_divide (8920029972890910 / 2 ^ 44) 2 = 8920029972890910 / 2 ^ 45"
    unfolding js_divide_def
    by (subst to_double_eval[where m = 45]) (simp_all add: round_to_even_def)
  show ?thesis
    unfolding leftover by (rule half)
qed

lemma image_page_wide:
  assumes "js_divide (image_width img) (image_height img) > js_divide page_width page_height"
  shows "image_page img = blank_page\<lparr>drawn :=
    [DrawImage img 0
      (js_divide (js_minus page_height
         (js_divide page_width (js_divide (image_width img) (image_height img)))) 2)
      page_width
      (js_divide page_width (js_divide (image_width img) (image_height img)))]\<rparr>"
proof -
  have zero: "js_divide (js_minus page_width page_width) 2 = 0"
    by (simp add: js_divide_def js_minus_def to_double_def)
  have drawn: "drawn blank_page = []"
    by (simp add: blank_page_def)
  show ?thesis
    using assms
    by (simp add: image_page_def Let_def getSize_blank_page drawImage_def drawn zero)
qed

lemma hd_page:
  "image_page \<lparr>image_kind = JPEG, picture = \<lparr>cwidth = 1920, cheight = 1080, painted = []\<rparr>\<rparr>
    = blank_page\<lparr>drawn :=
        [DrawImage \<lparr>image_kind = JPEG, picture = \<lparr>cwidth = 1920, cheight = 1080, painted = []\<rparr>\<rparr>
           0 (8920029972890910 / 2 ^ 45) page_width (5890655536042476 / 2 ^ 44)]\<rparr>"
proof -
  let ?img = "\<lparr>image_kind = JPEG, picture = \<lparr>cwidth = 1920, cheight = 1080, painted = []\<rparr>\<rparr>"
  have size: "image_width ?img = 1920" "image_height ?img = 1080"
    by (simp_all add: image_width_def image_height_def to_double_1920 to_double_1080)
  have ratio: "js_divide (image_width ?img) (image_height ?img) = 8006399337547548 / 2 ^ 52"
    unfolding size by (rule hd_ratio)
  have branch: "js_divide (image_width ?img) (image_height ?img)
      > js_divide page_width page_height"
    unfolding ratio page_ratio_value by simp
  show ?thesis
    unfolding image_page_wide [OF branch] ratio hd_height hd_offset ..
qed

lemma hd_drawn_ratio:
  "js_divide (5236138254259978 / 2 ^ 43) (5890655536042476 / 2 ^ 44) = 8006399337547547 / 2 ^ 52"
  unfolding js_divide_def
  by (subst to_double_eval[where m = 52]) (simp_all add: round_to_even_def)

lemma hd_result:
  "result_pages (imagesToPdf [image_file ''hd.jpg'' ''image/jpeg'' JPEG 1920 1080])
    = Some [image_page
        \<lparr>image_kind = JPEG, picture = \<lparr>cwidth = 1920, cheight = 1080, painted = []\<rparr>\<rparr>]"
  by (simp add: imagesToPdf_def image_file_def new_File_def new_Blob_def arrayBuffer_def
      PDFDocument_create_def addPage_def save_pages result_pages_def with_default_page_def)

text \<open>
  The claim as stated has the quotient of the drawn width and height equal to the
  quotient of the image's. For a 1920 by 1080 JPEG the drawn width is the page's,
  595.28, and the drawn height is that width divided by the rounded ratio, rounded
  again. Their quotient is not 1920 / 1080, neither as a real number nor when
  both are computed in doubles.
\<close>

theorem imagesToPdf_ratio_counterexample:
  "result_pages (imagesToPdf [image_file ''hd.jpg'' ''image/jpeg'' JPEG 1920 1080])
    = Some [blank_page\<lparr>drawn :=
        [DrawImage \<lparr>image_kind = JPEG, picture = \<lparr>cwidth = 1920, cheight = 1080, painted = []\<rparr>\<rparr>
           0 (8920029972890910 / 2 ^ 45) (5236138254259978 / 2 ^ 43) (5890655536042476 / 2 ^ 44)]\<rparr>]
   \<and> (5236138254259978 / 2 ^ 43) / (5890655536042476 / 2 ^ 44) \<noteq> (1920 / 1080 :: real)
   \<and> js_divide (5236138254259978 / 2 ^ 43) (5890655536042476 / 2 ^ 44) \<noteq> js_divide 1920 1080"
proof -
  have different: "js_divide (5236138254259978 / 2 ^ 43) (5890655536042476 / 2 ^ 44)
      \<noteq> js_divide 1920 1080"
    unfolding hd_drawn_ratio hd_ratio by simp
  have exact: "(5236138254259978 / 2 ^ 43) / (5890655536042476 / 2 ^ 44) \<noteq> (1920 / 1080 :: real)"
    by simp
  show ?thesis
    unfolding hd_result hd_page page_width_value
    using different exact by simp
qed

section \<open>Properties of DocumentProcessor\<close>

lemma try_catch_cases:
  "try_catch block label message =
     (case block of Inr returned \<Rightarrow> ([], returned)
      | Inl e \<Rightarrow> ([(label, e)], Inl (Error message)))"
  by (simp add: try_catch_def caught_def split: sum.splits)

subsection \<open>pdfToExcel\<close>

text \<open>
  C7, as the code has it. The workbook \<open>pdfToExcel\<close> writes has one sheet,
  \<open>Extracted Data\<close>, of four rows: two metadata rows, the first of which
  holds the input's file name, a three-column header row and a three-column
  sample data row. When the library writes it, the bytes are returned in a blob
  of the spreadsheet type, with nothing logged. Nothing but the name of the
  input is used: a file with the same name gives the same result, whatever its
  contents and type.
\<close>

theorem pdfToExcel_workbook:
  assumes "XLSX_write L
      \<lparr>SheetNames = [''Extracted Data''],
       Sheets = [(''Extracted Data'',
         [[''Extracted from PDF:'', name file],
          [''Note:'', ''This is a simplified extraction''],
          [''Column 1'', ''Column 2'', ''Column 3''],
          [''Data 1'', ''Data 2'', ''Data 3'']])]\<rparr> = Inr excelBuffer"
    and "name file' = name file"
  shows "pdfToExcel L file = ([], Inr (new_Blob excelBuffer
            ''application/vnd.openxmlformats-officedocument.spreadsheetml.sheet''))
    \<and> pdfToExcel L file' = pdfToExcel L file"
  using assms
  by (simp add: pdfToExcel_def try_catch_def aoa_to_sheet_def pdfToExcel_rows_def book_new_def
      book_append_sheet_def Let_def)

theorem pdfToExcel_workbook_witness:
  "pdfToExcel (sample_libraries (Inr (RawBytes []))) (pdf_file ''report.pdf'' [example_page ''A''])
     = ([], Inr (new_Blob
          (XlsxBytes \<lparr>SheetNames = [''Extracted Data''],
             Sheets = [(''Extracted Data'',
               [[''Extracted from PDF:'', ''report.pdf''],
                [''Note:'', ''This is a simplified extraction''],
                [''Column 1'', ''Column 2'', ''Column 3''],
                [''Data 1'', ''Data 2'', ''Data 3'']])]\<rparr>)
          ''application/vnd.openxmlformats-officedocument.spreadsheetml.sheet''))
   \<and> pdfToExcel (sample_libraries (Inr (RawBytes [])))
         (pdf_file ''report.pdf'' [example_page ''B'', example_page ''C''])
     = pdfToExcel (sample_libraries (Inr (RawBytes []))) (pdf_file ''report.pdf'' [example_page ''A''])"
proof -
  let ?L = "sample_libraries (Inr (RawBytes []))"
  let ?f = "pdf_file ''report.pdf'' [example_page ''A'']"
  let ?wb = "\<lparr>SheetNames = [''Extracted Data''],
       Sheets = [(''Extracted Data'',
         [[''Extracted from PDF:'', name ?f],
          [''Note:'', ''This is a simplified extraction''],
          [''Column 1'', ''Column 2'', ''Column 3''],
          [''Data 1'', ''Data 2'', ''Data 3'']])]\<rparr>"
  have written: "XLSX_write ?L ?wb = Inr (XlsxBytes ?wb)"
    by (simp add: sample_libraries_def)
  have same_name: "name (pdf_file ''report.pdf'' [example_page ''B'', example_page ''C'']) = name ?f"
    by (simp add: pdf_file_def)
  have "name ?f = ''report.pdf''"
    by (simp add: pdf_file_def)
  then show ?thesis
    using pdfToExcel_workbook [OF written same_name] by simp
qed

text \<open>
  The claim as stated has the sheet consist of two metadata rows plus one
  three-column sample row. The sheet written has four rows.
\<close>

theorem pdfToExcel_rows_counterexample:
  "pdfToExcel (sample_libraries (Inr (RawBytes []))) (pdf_file ''report.pdf'' [example_page ''A''])
     = ([], Inr (new_Blob
          (XlsxBytes \<lparr>SheetNames = [''Extracted Data''],
             Sheets = [(''Extracted Data'',
               pdfToExcel_rows (pdf_file ''report.pdf'' [example_page ''A'']))]\<rparr>)
          ''application/vnd.openxmlformats-officedocument.spreadsheetml.sheet''))
   \<and> map length (pdfToExcel_rows (pdf_file ''report.pdf'' [example_page ''A''])) = [2, 2, 3, 3]
   \<and> \<not> (\<exists>m1 m2 s. pdfToExcel_rows (pdf_file ''report.pdf'' [example_page ''A'']) = [m1, m2, s]
            \<and> length s = 3)"
  by (simp add: pdfToExcel_def try_catch_def aoa_to_sheet_def pdfToExcel_rows_def book_new_def
      book_append_sheet_def Let_def sample_libraries_def)

subsection \<open>Catching and re-signalling\<close>

text \<open>
  The three methods that build their blob themselves: \<open>pdfToWord\<close> and
  \<open>pdfToPowerPoint\<close> cannot fail, and the only error \<open>pdfToExcel\<close> lets out
  is its own.
\<close>

lemma pdfToWord_never_fails: "\<exists>b. pdfToWord L file = ([], Inr b)"
  by (simp add: pdfToWord_def try_catch_def Let_def)

lemma pdfToPowerPoint_never_fails: "\<exists>b. pdfToPowerPoint L file = ([], Inr b)"
  by (simp add: pdfToPowerPoint_def try_catch_def Let_def)

lemma pdfToExcel_error_generic:
  assumes "snd (pdfToExcel L file) = Inl e"
  shows "e = Error ''Failed to convert PDF to Excel''"
  using assms
  by (auto simp: pdfToExcel_def try_catch_cases Let_def andThen_def split: sum.splits)

text \<open>
  The three methods that end in \<open>return PDFProcessor.createTextPdf(...)\<close>: a
  failure of reading or of extraction is replaced by the method's own error, and
  any other error the caller sees is a rejection of \<open>createTextPdf\<close>, that is,
  an error jsPDF threw.
\<close>

lemma wordToPdf_error:
  assumes "snd (wordToPdf L file) = Inl e"
  shows "e = Error ''Failed to convert Word document'' \<or> (\<exists>t. jsPDF_text_output L t = Inl e)"
  using assms
  by (auto simp: wordToPdf_def try_catch_cases createTextPdf_def andThen_def split: sum.splits)

lemma excelToPdf_error:
  assumes "snd (excelToPdf L file) = Inl e"
  shows "e = Error ''Failed to convert Excel document'' \<or> (\<exists>t. jsPDF_text_output L t = Inl e)"
  using assms
  by (auto simp: excelToPdf_def try_catch_cases createTextPdf_def andThen_def split: sum.splits)

lemma powerPointToPdf_error:
  assumes "snd (powerPointToPdf L file) = Inl e"
  shows "\<exists>t. jsPDF_text_output L t = Inl e"
  using assms
  by (auto simp: powerPointToPdf_def try_catch_cases createTextPdf_def andThen_def Let_def
      split: sum.splits)

lemma wordToPdf_read_failure_caught:
  assumes "arrayBuffer file = Inl e"
  shows "wordToPdf L file
    = ([(''Word to PDF conversion failed:'', e)], Inl (Error ''Failed to convert Word document''))"
  using assms by (simp add: wordToPdf_def try_catch_cases)

lemma wordToPdf_extraction_failure_caught:
  assumes "arrayBuffer file = Inr data" and "mammoth_extractRawText L data = Inl e"
  shows "wordToPdf L file
    = ([(''Word to PDF conversion failed:'', e)], Inl (Error ''Failed to convert Word document''))"
  using assms by (simp add: wordToPdf_def try_catch_cases)

lemma wordToPdf_rendering_failure_escapes:
  assumes "arrayBuffer file = Inr data" and "mammoth_extractRawText L data = Inr t"
    and "jsPDF_text_output L t = Inl e"
  shows "wordToPdf L file = ([], Inl e)"
  using assms by (simp add: wordToPdf_def try_catch_cases createTextPdf_def)

text \<open>
  C1. The claim fails where the promise of \<open>createTextPdf\<close> rejects: the
  \<open>try\<close> block of \<open>wordToPdf\<close> has returned by then, nothing is logged, and
  the caller receives the error jsPDF threw instead of
  \<open>Failed to convert Word document\<close>.
\<close>

theorem wordToPdf_createTextPdf_rejection_escapes:
  "wordToPdf (sample_libraries (Inl (Error ''Invalid string length''))) docx_file
     = ([], Inl (Error ''Invalid string length''))"
  by (simp add: wordToPdf_def try_catch_def createTextPdf_def sample_libraries_def docx_file_def
      arrayBuffer_def)

end
